theory Spec2Isabelle
  imports Main "HOL-Library.Char_ord" "HOL-Library.List_Lexorder"
begin

section \<open>Errors\<close>

text \<open>
  The exceptions that the functions of \<^verbatim>\<open>check_inconsistency.py\<close> can raise, either
  explicitly (\<^verbatim>\<open>FileNotFoundError\<close>) or through a built-in or library call
  (\<^verbatim>\<open>open\<close>, reading a line of a text file, \<^verbatim>\<open>list.index\<close>,
  \<^verbatim>\<open>list.pop\<close>, \<^verbatim>\<open>set.remove\<close>, a dictionary lookup,
  \<^verbatim>\<open>nx.shortest_path\<close>).
\<close>

datatype py_error =
    FileNotFoundError string
  | IsADirectoryError
  | PermissionError
  | UnicodeDecodeError
  | ValueError
  | IndexError
  | KeyError
  | NetworkXNoPath
  | NodeNotFound

section \<open>Reading the relation table: \<^verbatim>\<open>load_relationships\<close>\<close>

subsection \<open>Lines and fields\<close>

text \<open>
  A Python \<^verbatim>\<open>str\<close> is held as its UTF-8 encoding: a \<open>string\<close> of bytes. Two strings
  are equal exactly when their encodings are, the byte \<^verbatim>\<open>|\<close> occurs in an encoding only
  as the character \<^verbatim>\<open>|\<close>, and the order of the encodings is the order of the strings.

  \<^verbatim>\<open>line.strip()\<close> removes the leading and the trailing characters for which
  \<^verbatim>\<open>str.isspace\<close> holds. These are U+0009 to U+000D, U+001C to U+0020, U+0085, U+00A0,
  U+1680, U+2000 to U+200A, U+2028, U+2029, U+202F, U+205F and U+3000; \<open>whitespace\<close>
  lists their encodings.
\<close>

definition whitespace :: "string list" where
  "whitespace =
     [[CHR 0x09], [CHR 0x0A], [CHR 0x0B], [CHR 0x0C], [CHR 0x0D],
      [CHR 0x1C], [CHR 0x1D], [CHR 0x1E], [CHR 0x1F], [CHR 0x20],
      [CHR 0xC2, CHR 0x85], [CHR 0xC2, CHR 0xA0],
      [CHR 0xE1, CHR 0x9A, CHR 0x80],
      [CHR 0xE2, CHR 0x80, CHR 0x80], [CHR 0xE2, CHR 0x80, CHR 0x81],
      [CHR 0xE2, CHR 0x80, CHR 0x82], [CHR 0xE2, CHR 0x80, CHR 0x83],
      [CHR 0xE2, CHR 0x80, CHR 0x84], [CHR 0xE2, CHR 0x80, CHR 0x85],
      [CHR 0xE2, CHR 0x80, CHR 0x86], [CHR 0xE2, CHR 0x80, CHR 0x87],
      [CHR 0xE2, CHR 0x80, CHR 0x88], [CHR 0xE2, CHR 0x80, CHR 0x89],
      [CHR 0xE2, CHR 0x80, CHR 0x8A],
      [CHR 0xE2, CHR 0x80, CHR 0xA8], [CHR 0xE2, CHR 0x80, CHR 0xA9],
      [CHR 0xE2, CHR 0x80, CHR 0xAF],
      [CHR 0xE2, CHR 0x81, CHR 0x9F],
      [CHR 0xE3, CHR 0x80, CHR 0x80]]"

text \<open>
  \<open>strip_front ws s\<close> removes from the front of \<open>s\<close> every member of \<open>ws\<close> that
  \<open>s\<close> begins with, as long as there is one.
\<close>

function strip_front :: "string list \<Rightarrow> string \<Rightarrow> string" where
  "strip_front ws s =
     (case find (\<lambda>w. w \<noteq> [] \<and> take (length w) s = w) ws of
        None \<Rightarrow> s
      | Some w \<Rightarrow> strip_front ws (drop (length w) s))"
  by pat_completeness auto

termination strip_front
proof (relation "measure (\<lambda>(ws, s). length s)")
  show "wf (measure (\<lambda>(ws :: string list, s :: string). length s))"
    by simp
next
  fix ws :: "string list" and s w :: string
  assume "find (\<lambda>w. w \<noteq> [] \<and> take (length w) s = w) ws = Some w"
  then have w: "w \<noteq> []" and t: "take (length w) s = w"
    by (auto simp: find_Some_iff)
  from w t have "s \<noteq> []"
    by auto
  with w have "length s - length w < length s"
    by (cases s; cases w) simp_all
  then show "((ws, drop (length w) s), (ws, s)) \<in> measure (\<lambda>(ws, s). length s)"
    by simp
qed

declare strip_front.simps [simp del]

definition lstrip :: "string \<Rightarrow> string" where
  "lstrip s = strip_front whitespace s"

definition rstrip :: "string \<Rightarrow> string" where
  "rstrip s = rev (strip_front (map rev whitespace) (rev s))"

definition strip :: "string \<Rightarrow> string" where
  "strip s = rstrip (lstrip s)"

text \<open>\<^verbatim>\<open>s.split(d)\<close>: one field more than there are separators; the empty string gives one empty field.\<close>

fun split_on :: "char \<Rightarrow> string \<Rightarrow> string list" where
  "split_on d [] = [[]]"
| "split_on d (c # cs) =
     (if c = d then [] # split_on d cs
      else (case split_on d cs of
              [] \<Rightarrow> [[c]]
            | f # fs \<Rightarrow> (c # f) # fs))"

definition fields_of :: "string \<Rightarrow> string list" where
  "fields_of line = split_on (CHR ''|'') (strip line)"

subsection \<open>The accumulators\<close>

type_synonym cui = string
type_synonym edge = "cui \<times> cui"

text \<open>
  \<^verbatim>\<open>repeats\<close> is a \<^verbatim>\<open>Counter\<close>: a dictionary whose missing keys read as 0.
  \<^verbatim>\<open>repeats[edge] += 1\<close> reads the count (0 when absent) and stores it plus one.
\<close>

definition counter_get :: "('k \<rightharpoonup> nat) \<Rightarrow> 'k \<Rightarrow> nat" where
  "counter_get m k = (case m k of None \<Rightarrow> 0 | Some c \<Rightarrow> c)"

definition counter_incr :: "('k \<rightharpoonup> nat) \<Rightarrow> 'k \<Rightarrow> ('k \<rightharpoonup> nat)" where
  "counter_incr m k = m(k \<mapsto> counter_get m k + 1)"

record load_state =
  child_relations :: "edge set"
  broader_relations :: "edge set"
  repeats :: "edge \<rightharpoonup> nat"
  reflexives :: "(cui \<times> string) set"
  rel_kinds :: "string set"

definition init_state :: load_state where
  "init_state =
     \<lparr>child_relations = {}, broader_relations = {}, repeats = Map.empty,
      reflexives = {}, rel_kinds = {}\<rparr>"

subsection \<open>The body of the reading loop\<close>

text \<open>
  \<open>classify\<close> is the body of the \<^verbatim>\<open>for line in file\<close> loop from the point where the
  line has been split into \<^verbatim>\<open>fields\<close> (here \<open>flds\<close>); \<open>read_line\<close> is the whole body.
\<close>

definition classify :: "load_state \<Rightarrow> string list \<Rightarrow> load_state" where
  "classify st flds =
     (if length flds < 5 then st
      else
        let src_cui = flds ! 0; rel_type = flds ! 3; tgt_cui = flds ! 4;
            st1 = st\<lparr>rel_kinds := insert rel_type (rel_kinds st)\<rparr>
        in if src_cui = tgt_cui
           then st1\<lparr>reflexives := insert (src_cui, rel_type) (reflexives st1)\<rparr>
           else if rel_type = ''CHD''
           then st1\<lparr>child_relations := insert (tgt_cui, src_cui) (child_relations st1),
                    repeats := counter_incr (repeats st1) (tgt_cui, src_cui)\<rparr>
           else if rel_type = ''PAR''
           then st1\<lparr>child_relations := insert (src_cui, tgt_cui) (child_relations st1),
                    repeats := counter_incr (repeats st1) (src_cui, tgt_cui)\<rparr>
           else if rel_type = ''RB''
           then st1\<lparr>broader_relations := insert (src_cui, tgt_cui) (broader_relations st1),
                    repeats := counter_incr (repeats st1) (src_cui, tgt_cui)\<rparr>
           else if rel_type = ''RN''
           then st1\<lparr>broader_relations := insert (tgt_cui, src_cui) (broader_relations st1),
                    repeats := counter_incr (repeats st1) (tgt_cui, src_cui)\<rparr>
           else st1)"

definition read_line :: "load_state \<Rightarrow> string \<Rightarrow> load_state" where
  "read_line st line = classify st (fields_of line)"

subsection \<open>The file and its decoding\<close>

text \<open>
  The file system maps a path to what is stored there, and to \<open>None\<close> when
  \<^verbatim>\<open>Path(filepath).exists()\<close> is false. A path that exists is a directory, a file that
  the process may not read, or a file with its content: the bytes of the file, cut after
  each line terminator.
\<close>

datatype file_node = Directory | Unreadable | File "string list"

type_synonym file_system = "string \<rightharpoonup> file_node"

text \<open>
  \<^verbatim>\<open>open\<close>, called on the path for reading UTF-8 text, raises \<^verbatim>\<open>FileNotFoundError\<close> for a missing
  path, \<^verbatim>\<open>IsADirectoryError\<close> for a directory and \<^verbatim>\<open>PermissionError\<close> for a file
  that may not be read; otherwise it gives the file, whose lines are decoded as they are
  read.
\<close>

definition open_text :: "file_system \<Rightarrow> string \<Rightarrow> py_error + string list" where
  "open_text fs filepath =
     (case fs filepath of
        None \<Rightarrow> Inl (FileNotFoundError filepath)
      | Some Directory \<Rightarrow> Inl IsADirectoryError
      | Some Unreadable \<Rightarrow> Inl PermissionError
      | Some (File content) \<Rightarrow> Inr content)"

text \<open>
  The decoder is strict (\<^verbatim>\<open>errors\<close> is left at its default): it raises
  \<^verbatim>\<open>UnicodeDecodeError\<close> on a byte sequence that is not well-formed UTF-8.
  \<open>trailing\<close> gives, for a first byte, the ranges of the bytes that must follow it:
  no overlong form, no surrogate, nothing above U+10FFFF. \<open>after\<close> takes the bytes
  of these ranges off the front of a string.
\<close>

definition trailing :: "char \<Rightarrow> (nat \<times> nat) list option" where
  "trailing a =
     (let x = (of_char a :: nat) in
      if x \<le> 0x7F then Some []
      else if 0xC2 \<le> x \<and> x \<le> 0xDF then Some [(0x80, 0xBF)]
      else if x = 0xE0 then Some [(0xA0, 0xBF), (0x80, 0xBF)]
      else if 0xE1 \<le> x \<and> x \<le> 0xEC then Some [(0x80, 0xBF), (0x80, 0xBF)]
      else if x = 0xED then Some [(0x80, 0x9F), (0x80, 0xBF)]
      else if 0xEE \<le> x \<and> x \<le> 0xEF then Some [(0x80, 0xBF), (0x80, 0xBF)]
      else if x = 0xF0 then Some [(0x90, 0xBF), (0x80, 0xBF), (0x80, 0xBF)]
      else if 0xF1 \<le> x \<and> x \<le> 0xF3 then Some [(0x80, 0xBF), (0x80, 0xBF), (0x80, 0xBF)]
      else if x = 0xF4 then Some [(0x80, 0x8F), (0x80, 0xBF), (0x80, 0xBF)]
      else None)"

fun after :: "(nat \<times> nat) list \<Rightarrow> string \<Rightarrow> string option" where
  "after [] s = Some s"
| "after ((lo, hi) # rs) [] = None"
| "after ((lo, hi) # rs) (b # s) =
     (if lo \<le> of_char b \<and> of_char b \<le> hi then after rs s else None)"

function valid_utf8 :: "string \<Rightarrow> bool" where
  "valid_utf8 [] = True"
| "valid_utf8 (a # s) =
     (case trailing a of
        None \<Rightarrow> False
      | Some rs \<Rightarrow>
          (case after rs s of
             None \<Rightarrow> False
           | Some s' \<Rightarrow> valid_utf8 s'))"
  by pat_completeness auto

lemma after_length: "after rs s = Some s' \<Longrightarrow> length s' \<le> length s"
proof (induction rs s rule: after.induct)
  case (3 lo hi rs b s)
  then show ?case by (auto split: if_splits)
qed simp_all

termination valid_utf8
proof (relation "measure length")
  show "wf (measure (length :: string \<Rightarrow> nat))"
    by simp
next
  fix a :: char and s s' :: string and rs :: "(nat \<times> nat) list"
  assume "after rs s = Some s'"
  then have "length s' \<le> length s"
    by (rule after_length)
  then show "(s', a # s) \<in> measure length"
    by simp
qed

text \<open>
  The count \<^verbatim>\<open>total_lines\<close> is taken by reading the file to its end, which decodes
  every line; \<^verbatim>\<open>for line in file\<close> decodes each line again before the body
  of the loop runs on it.
\<close>

fun count_lines :: "string list \<Rightarrow> py_error + nat" where
  "count_lines [] = Inr 0"
| "count_lines (line # rest) =
     (if valid_utf8 line
      then (case count_lines rest of Inl e \<Rightarrow> Inl e | Inr n \<Rightarrow> Inr (n + 1))
      else Inl UnicodeDecodeError)"

fun read_lines :: "load_state \<Rightarrow> string list \<Rightarrow> py_error + load_state" where
  "read_lines st [] = Inr st"
| "read_lines st (line # rest) =
     (if valid_utf8 line then read_lines (read_line st line) rest
      else Inl UnicodeDecodeError)"

subsection \<open>The function\<close>

text \<open>
  \<open>open_and_count\<close> is \<^verbatim>\<open>load_relationships\<close> up to the loop: the test of
  \<^verbatim>\<open>path.exists()\<close>, the \<^verbatim>\<open>open\<close> of the \<^verbatim>\<open>with\<close> statement, and the second
  \<^verbatim>\<open>open\<close> with the count of its lines. \<open>load_relationships\<close> then runs the loop
  from the empty accumulators and returns them.
\<close>

definition open_and_count :: "file_system \<Rightarrow> string \<Rightarrow> py_error + string list \<times> nat" where
  "open_and_count fs filepath =
     (if fs filepath = None then Inl (FileNotFoundError filepath)
      else
        (case open_text fs filepath of
           Inl e \<Rightarrow> Inl e
         | Inr file \<Rightarrow>
             (case open_text fs filepath of
                Inl e \<Rightarrow> Inl e
              | Inr counted \<Rightarrow>
                  (case count_lines counted of
                     Inl e \<Rightarrow> Inl e
                   | Inr total_lines \<Rightarrow> Inr (file, total_lines)))))"

definition load_relationships :: "file_system \<Rightarrow> string \<Rightarrow> py_error + load_state" where
  "load_relationships fs filepath =
     (case open_and_count fs filepath of
        Inl e \<Rightarrow> Inl e
      | Inr (file, total_lines) \<Rightarrow> read_lines init_state file)"

text \<open>
  The records that contribute an edge, with the edge as it is stored: \<open>hierarchy_record\<close>
  for the branches \<^verbatim>\<open>CHD\<close> and \<^verbatim>\<open>PAR\<close>, \<open>broader_record\<close> for
  \<^verbatim>\<open>RB\<close> and \<^verbatim>\<open>RN\<close>.
\<close>

definition hierarchy_record :: "string list \<Rightarrow> edge \<Rightarrow> bool" where
  "hierarchy_record flds e \<longleftrightarrow>
     5 \<le> length flds \<and> flds ! 0 \<noteq> flds ! 4 \<and>
     (flds ! 3 = ''CHD'' \<and> e = (flds ! 4, flds ! 0) \<or>
      flds ! 3 = ''PAR'' \<and> e = (flds ! 0, flds ! 4))"

definition broader_record :: "string list \<Rightarrow> edge \<Rightarrow> bool" where
  "broader_record flds e \<longleftrightarrow>
     5 \<le> length flds \<and> flds ! 0 \<noteq> flds ! 4 \<and>
     (flds ! 3 = ''RB'' \<and> e = (flds ! 0, flds ! 4) \<or>
      flds ! 3 = ''RN'' \<and> e = (flds ! 4, flds ! 0))"

section \<open>The hierarchy as a \<^verbatim>\<open>defaultdict(list)\<close>\<close>

text \<open>
  \<^verbatim>\<open>main\<close> builds \<^verbatim>\<open>tree = defaultdict(list)\<close> and appends each child to
  \<^verbatim>\<open>tree[parent]\<close>. The dictionary is an association list in insertion order.
  Reading \<^verbatim>\<open>d[k]\<close> for a missing key stores an empty list under \<open>k\<close> and returns
  it: the lookup returns the dictionary too.
\<close>

type_synonym 'a adjacency = "('a \<times> 'a list) list"

definition dd_getitem :: "'a adjacency \<Rightarrow> 'a \<Rightarrow> 'a adjacency \<times> 'a list" where
  "dd_getitem d k =
     (case map_of d k of
        Some v \<Rightarrow> (d, v)
      | None \<Rightarrow> (d @ [(k, [])], []))"

definition dd_append :: "'a adjacency \<Rightarrow> 'a \<Rightarrow> 'a \<Rightarrow> 'a adjacency" where
  "dd_append d k c =
     map (\<lambda>(k', v). if k' = k then (k', v @ [c]) else (k', v)) (fst (dd_getitem d k))"

definition build_tree :: "('a \<times> 'a) list \<Rightarrow> 'a adjacency" where
  "build_tree child_links = foldl (\<lambda>tree (parent, child). dd_append tree parent child) [] child_links"

section \<open>Cycle detection: \<^verbatim>\<open>find_hierarchy_cycles\<close>\<close>

text \<open>\<^verbatim>\<open>trail.index(current)\<close>: the first position of the value, \<open>None\<close> for \<^verbatim>\<open>ValueError\<close>.\<close>

fun index_of :: "'a list \<Rightarrow> 'a \<Rightarrow> nat option" where
  "index_of [] x = None"
| "index_of (y # ys) x = (if y = x then Some 0 else map_option Suc (index_of ys x))"

text \<open>
  The state that the nested function \<^verbatim>\<open>dfs\<close> works on: the dictionary it reads (and,
  being a \<^verbatim>\<open>defaultdict\<close>, may write), the four variables of the enclosing call that it
  closes over, and the list \<^verbatim>\<open>trail\<close>, which every call receives by reference and
  changes in place. Node identifiers are compared and sorted, nothing else, so the node type
  is any linear order; the program uses strings.
\<close>

record 'a dfs_state =
  adjacency_list :: "'a adjacency"
  visited :: "'a set"
  stack :: "'a set"
  trail :: "'a list"
  found_cycles :: "'a list list"
  seen_signatures :: "'a list set"

text \<open>
  The three parts of the body of \<^verbatim>\<open>dfs\<close>: the branch for a node that is on the stack
  (\<^verbatim>\<open>trail[idx:]\<close> is recorded unless its sorted tuple was seen), the three updates before
  the loop over the neighbours, and \<^verbatim>\<open>trail.pop()\<close> with \<^verbatim>\<open>stack.remove(current)\<close>
  after it, which raise on an empty list and on a missing element.
\<close>

definition record_loop :: "('a::linorder) dfs_state \<Rightarrow> 'a \<Rightarrow> py_error + 'a dfs_state" where
  "record_loop st current =
     (case index_of (trail st) current of
        None \<Rightarrow> Inl ValueError
      | Some idx \<Rightarrow>
          let loop = drop idx (trail st); key = sort loop
          in if key \<notin> seen_signatures st
             then Inr (st\<lparr>seen_signatures := insert key (seen_signatures st),
                          found_cycles := found_cycles st @ [loop]\<rparr>)
             else Inr st)"

definition enter :: "'a dfs_state \<Rightarrow> 'a \<Rightarrow> 'a dfs_state" where
  "enter st current =
     st\<lparr>visited := insert current (visited st),
        stack := insert current (stack st),
        trail := trail st @ [current]\<rparr>"

definition leave :: "'a dfs_state \<Rightarrow> 'a \<Rightarrow> py_error + 'a dfs_state" where
  "leave st current =
     (if trail st = [] then Inl IndexError
      else if current \<notin> stack st then Inl KeyError
      else Inr (st\<lparr>trail := butlast (trail st), stack := stack st - {current}\<rparr>))"

text \<open>
  \<open>dfs_neighbors\<close> is the loop \<^verbatim>\<open>for neighbor in adjacency_list[current]\<close>. The depth
  of Python's call stack is not modelled: a chain longer than the interpreter's recursion
  limit is outside the model.
\<close>

function dfs :: "('a::linorder) dfs_state \<Rightarrow> 'a \<Rightarrow> py_error + 'a dfs_state"
  and dfs_neighbors :: "'a dfs_state \<Rightarrow> 'a list \<Rightarrow> py_error + 'a dfs_state"
where
  "dfs st current =
     (if current \<in> stack st then record_loop st current
      else if current \<in> visited st then Inr st
      else
        let st1 = enter st current;
            (d, neighbors) = dd_getitem (adjacency_list st1) current
        in case dfs_neighbors (st1\<lparr>adjacency_list := d\<rparr>) neighbors of
             Inl e \<Rightarrow> Inl e
           | Inr st2 \<Rightarrow> leave st2 current)"
| "dfs_neighbors st [] = Inr st"
| "dfs_neighbors st (neighbor # rest) =
     (case dfs st neighbor of
        Inl e \<Rightarrow> Inl e
      | Inr st' \<Rightarrow> dfs_neighbors st' rest)"
  by pat_completeness auto

text \<open>
  Termination: the nodes of the dictionary (keys and children) that are not yet visited
  never grow in number, and shrink whenever \<open>dfs\<close> goes on to the neighbours of a key.
\<close>

definition unvisited :: "'a dfs_state \<Rightarrow> 'a set" where
  "unvisited st =
     (fst ` set (adjacency_list st) \<union> (\<Union>kv \<in> set (adjacency_list st). set (snd kv))) - visited st"

lemma finite_unvisited: "finite (unvisited st)"
  by (simp add: unvisited_def)

lemma unvisited_record_loop: "record_loop st c = Inr st' \<Longrightarrow> unvisited st' = unvisited st"
  by (auto simp: record_loop_def unvisited_def Let_def split: option.splits if_splits)

lemma unvisited_leave: "leave st c = Inr st' \<Longrightarrow> unvisited st' = unvisited st"
  by (auto simp: leave_def unvisited_def split: if_splits)

lemma unvisited_enter_getitem:
  "dd_getitem (adjacency_list (enter st c)) c = (d, ns) \<Longrightarrow>
   unvisited (enter st c\<lparr>adjacency_list := d\<rparr>) = unvisited st - {c}"
  by (fastforce simp: dd_getitem_def enter_def unvisited_def split: option.splits)

lemma getitem_cases:
  "dd_getitem (adjacency_list (enter st c)) c = (d, ns) \<Longrightarrow> ns = [] \<or> c \<in> fst ` set (adjacency_list st)"
  by (auto simp: dd_getitem_def enter_def split: option.splits dest: map_of_SomeD intro: rev_image_eqI)

lemma unvisited_mono_dom:
  "dfs_dfs_neighbors_dom (Inl (st, c)) \<Longrightarrow> dfs st c = Inr st' \<Longrightarrow> unvisited st' \<subseteq> unvisited st"
  "dfs_dfs_neighbors_dom (Inr (st, cs)) \<Longrightarrow> dfs_neighbors st cs = Inr st' \<Longrightarrow> unvisited st' \<subseteq> unvisited st"
proof (induction st c and st cs arbitrary: st' and st' rule: dfs_dfs_neighbors.pinduct)
  case (1 st current)
  show ?case
  proof (cases "current \<in> stack st")
    case True
    with 1 show ?thesis by (simp add: dfs.psimps unvisited_record_loop)
  next
    case notstack: False
    show ?thesis
    proof (cases "current \<in> visited st")
      case True
      with 1 notstack show ?thesis by (simp add: dfs.psimps)
    next
      case False
      obtain d ns where g: "dd_getitem (adjacency_list (enter st current)) current = (d, ns)"
        by (cases "dd_getitem (adjacency_list (enter st current)) current")
      from 1(1,3) notstack False g obtain st2 where
        n: "dfs_neighbors (enter st current\<lparr>adjacency_list := d\<rparr>) ns = Inr st2"
        and l: "leave st2 current = Inr st'"
        by (auto simp: dfs.psimps split: sum.splits)
      have "unvisited st2 \<subseteq> unvisited (enter st current\<lparr>adjacency_list := d\<rparr>)"
        using 1(2)[OF notstack False refl refl g[symmetric] n] .
      then show ?thesis
        using unvisited_leave[OF l] unvisited_enter_getitem[OF g] by auto
    qed
  qed
next
  case (2 st)
  then show ?case by (simp add: dfs_neighbors.psimps)
next
  case (3 st neighbor rest)
  from 3(1,4) obtain st1 where a: "dfs st neighbor = Inr st1" and b: "dfs_neighbors st1 rest = Inr st'"
    by (auto simp: dfs_neighbors.psimps split: sum.splits)
  from 3(2)[OF a] 3(3)[OF a b] show ?case by auto
qed


definition dfs_rank :: "'a dfs_state \<times> 'a + 'a dfs_state \<times> 'a list \<Rightarrow> nat \<times> nat" where
  "dfs_rank x =
     (case x of
        Inl (st, c) \<Rightarrow> (card (unvisited st), 1)
      | Inr (st, cs) \<Rightarrow> (card (unvisited st), 2 * length cs))"

termination dfs
proof (relation "inv_image (less_than <*lex*> less_than) dfs_rank")
  show "wf (inv_image (less_than <*lex*> less_than) (dfs_rank :: 'a dfs_state \<times> 'a + 'a dfs_state \<times> 'a list \<Rightarrow> nat \<times> nat))"
    by (intro wf_inv_image wf_lex_prod wf_less_than)
next
  fix st :: "'a dfs_state" and current x xa xb y
  assume a: "current \<notin> stack st" "current \<notin> visited st" "x = enter st current"
    "xa = dd_getitem (adjacency_list x) current" "(xb, y) = xa"
  then have g: "dd_getitem (adjacency_list (enter st current)) current = (xb, y)" by simp
  have le: "card (unvisited (enter st current\<lparr>adjacency_list := xb\<rparr>)) \<le> card (unvisited st)"
    unfolding unvisited_enter_getitem[OF g]
    by (rule card_mono[OF finite_unvisited]) auto
  show "(Inr (x\<lparr>adjacency_list := xb\<rparr>, y), Inl (st, current))
        \<in> inv_image (less_than <*lex*> less_than) dfs_rank"
  proof (cases "y = []")
    case True
    with le a show ?thesis by (auto simp: dfs_rank_def)
  next
    case False
    with getitem_cases[OF g] have "current \<in> fst ` set (adjacency_list st)" by simp
    with a(2) have "current \<in> unvisited st" by (simp add: unvisited_def)
    then have "card (unvisited st - {current}) < card (unvisited st)"
      by (intro card_Diff1_less finite_unvisited)
    then show ?thesis using a unvisited_enter_getitem[OF g] by (simp add: dfs_rank_def)
  qed
next
  fix st :: "'a dfs_state" and neighbor rest
  show "(Inl (st, neighbor), Inr (st, neighbor # rest))
        \<in> inv_image (less_than <*lex*> less_than) dfs_rank"
    by (simp add: dfs_rank_def)
next
  fix st :: "'a dfs_state" and neighbor rest x2
  assume "dfs st neighbor = Inr x2" "dfs_dfs_neighbors_dom (Inl (st, neighbor))"
  then have "card (unvisited x2) \<le> card (unvisited st)"
    by (intro card_mono finite_unvisited unvisited_mono_dom)
  then show "(Inr (x2, rest), Inr (st, neighbor # rest))
        \<in> inv_image (less_than <*lex*> less_than) dfs_rank"
    by (auto simp: dfs_rank_def)
qed

declare dfs.simps [simp del]

text \<open>
  \<open>visit_roots\<close> is the loop \<^verbatim>\<open>for node in list(adjacency_list)\<close>: it runs over the
  keys as they were before the traversal, and each root starts with a fresh, empty trail.
  \<open>find_hierarchy_cycles\<close> returns the dictionary as the traversal left it together with
  the list of cycles.
\<close>

fun visit_roots :: "('a::linorder) dfs_state \<Rightarrow> 'a list \<Rightarrow> py_error + 'a dfs_state" where
  "visit_roots st [] = Inr st"
| "visit_roots st (node # nodes) =
     (if node \<notin> visited st
      then (case dfs (st\<lparr>trail := []\<rparr>) node of
              Inl e \<Rightarrow> Inl e
            | Inr st' \<Rightarrow> visit_roots st' nodes)
      else visit_roots st nodes)"

definition find_hierarchy_cycles ::
  "('a::linorder) adjacency \<Rightarrow> py_error + 'a adjacency \<times> 'a list list" where
  "find_hierarchy_cycles adj =
     (case visit_roots
             \<lparr>adjacency_list = adj, visited = {}, stack = {}, trail = [],
              found_cycles = [], seen_signatures = {}\<rparr>
             (map fst adj) of
        Inl e \<Rightarrow> Inl e
      | Inr st \<Rightarrow> Inr (adjacency_list st, found_cycles st))"

section \<open>The broader-than graph and \<^verbatim>\<open>identify_broader_issues\<close>\<close>

text \<open>
  \<^verbatim>\<open>nx.DiGraph\<close> comes from the networkx library, which is not part of the repository.
  The graph is modelled by what the program uses of it: its nodes in insertion order, each
  with the list of its successors in insertion order; \<^verbatim>\<open>add_edges_from\<close> adds the two
  end points of an edge as nodes when they are new and the target to the successors of the
  source when it is not there yet.
\<close>

type_synonym 'a digraph = "('a \<times> 'a list) list"

definition add_node :: "'a digraph \<Rightarrow> 'a \<Rightarrow> 'a digraph" where
  "add_node g n = (if n \<in> fst ` set g then g else g @ [(n, [])])"

definition add_edge :: "'a digraph \<Rightarrow> 'a \<times> 'a \<Rightarrow> 'a digraph" where
  "add_edge g e =
     (case e of (u, v) \<Rightarrow>
        map (\<lambda>(n, vs). if n = u \<and> v \<notin> set vs then (n, vs @ [v]) else (n, vs))
            (add_node (add_node g u) v))"

definition add_edges_from :: "'a digraph \<Rightarrow> ('a \<times> 'a) list \<Rightarrow> 'a digraph" where
  "add_edges_from g es = foldl add_edge g es"

definition nodes :: "'a digraph \<Rightarrow> 'a list" where
  "nodes g = map fst g"

definition successors :: "'a digraph \<Rightarrow> 'a \<Rightarrow> 'a list" where
  "successors g u = (case map_of g u of Some vs \<Rightarrow> vs | None \<Rightarrow> [])"

definition number_of_edges :: "'a digraph \<Rightarrow> nat" where
  "number_of_edges g = length (concat (map snd g))"

text \<open>
  \<^verbatim>\<open>nx.descendants(G, n)\<close> and \<^verbatim>\<open>nx.shortest_path(G, s, t)\<close> are modelled from
  their documented behaviour: the former gives the nodes other than \<open>n\<close> that can be reached
  from \<open>n\<close>, the latter a path from \<open>s\<close> to \<open>t\<close> with the fewest edges, raising
  \<^verbatim>\<open>NodeNotFound\<close> for an end point that is not a node and \<^verbatim>\<open>NetworkXNoPath\<close> when
  there is no path. Both are computed here from the breadth-first layers of the graph:
  \<open>bfs_layer g s k\<close> lists the nodes at the end of a walk of \<open>k\<close> edges from \<open>s\<close>, and a
  walk never needs more edges than the graph has. Which of several shortest paths
  networkx returns, and in which order a Python set is iterated, is fixed by the model (the
  first found in insertion order); \<^verbatim>\<open>nx.descendants\<close> is only called on nodes of the graph.
\<close>

fun bfs_layer :: "'a digraph \<Rightarrow> 'a \<Rightarrow> nat \<Rightarrow> 'a list" where
  "bfs_layer g s 0 = [s]"
| "bfs_layer g s (Suc k) = remdups (concat (map (successors g) (bfs_layer g s k)))"

definition nx_descendants :: "'a digraph \<Rightarrow> 'a \<Rightarrow> 'a list" where
  "nx_descendants g s =
     filter (\<lambda>t. t \<noteq> s)
       (remdups (concat (map (bfs_layer g s) [1 ..< Suc (number_of_edges g)])))"

fun path_to :: "'a digraph \<Rightarrow> 'a \<Rightarrow> nat \<Rightarrow> 'a \<Rightarrow> 'a list option" where
  "path_to g s 0 t = (if t = s then Some [s] else None)"
| "path_to g s (Suc k) t =
     (case find (\<lambda>p. t \<in> set (successors g p)) (bfs_layer g s k) of
        None \<Rightarrow> None
      | Some p \<Rightarrow> map_option (\<lambda>w. w @ [t]) (path_to g s k p))"

definition nx_shortest_path :: "'a digraph \<Rightarrow> 'a \<Rightarrow> 'a \<Rightarrow> py_error + 'a list" where
  "nx_shortest_path g s t =
     (if s \<notin> set (nodes g) \<or> t \<notin> set (nodes g) then Inl NodeNotFound
      else (case find (\<lambda>k. t \<in> set (bfs_layer g s k)) [0 ..< Suc (number_of_edges g)] of
              None \<Rightarrow> Inl NetworkXNoPath
            | Some k \<Rightarrow> (case path_to g s k t of
                          None \<Rightarrow> Inl NetworkXNoPath
                        | Some w \<Rightarrow> Inr w)))"

text \<open>
  An entry of \<^verbatim>\<open>problematic_pairs\<close>, the dictionary with the keys \<^verbatim>\<open>from\<close>,
  \<^verbatim>\<open>to\<close> and \<^verbatim>\<open>path\<close>; \<open>dict_get\<close> is \<^verbatim>\<open>d.get(k, default)\<close>. \<open>check_targets\<close>
  is the inner loop of \<^verbatim>\<open>identify_broader_issues\<close> and \<open>check_sources\<close> the outer one, where
  \<^verbatim>\<open>descendants_map[source]\<close> raises for a missing key.
\<close>

record 'a contradiction =
  c_from :: 'a
  c_to :: 'a
  c_path :: "'a list"

definition dict_get :: "('k \<times> 'v) list \<Rightarrow> 'k \<Rightarrow> 'v \<Rightarrow> 'v" where
  "dict_get d k dflt = (case map_of d k of Some v \<Rightarrow> v | None \<Rightarrow> dflt)"

fun check_targets ::
  "'a digraph \<Rightarrow> ('a \<times> 'a list) list \<Rightarrow> 'a \<Rightarrow> 'a list \<Rightarrow> 'a contradiction list
     \<Rightarrow> py_error + 'a contradiction list" where
  "check_targets graph descendants_map source [] problematic_pairs = Inr problematic_pairs"
| "check_targets graph descendants_map source (target # rest) problematic_pairs =
     (if source \<in> set (dict_get descendants_map target [])
      then (case nx_shortest_path graph source target of
              Inl e \<Rightarrow> Inl e
            | Inr fwd_path \<Rightarrow>
                (case nx_shortest_path graph target source of
                   Inl e \<Rightarrow> Inl e
                 | Inr back_path \<Rightarrow>
                     check_targets graph descendants_map source rest
                       (problematic_pairs @
                          [\<lparr>c_from = source, c_to = target, c_path = fwd_path @ tl back_path\<rparr>])))
      else check_targets graph descendants_map source rest problematic_pairs)"

fun check_sources ::
  "'a digraph \<Rightarrow> ('a \<times> 'a list) list \<Rightarrow> 'a list \<Rightarrow> 'a contradiction list
     \<Rightarrow> py_error + 'a contradiction list" where
  "check_sources graph descendants_map [] problematic_pairs = Inr problematic_pairs"
| "check_sources graph descendants_map (source # rest) problematic_pairs =
     (case map_of descendants_map source of
        None \<Rightarrow> Inl KeyError
      | Some targets \<Rightarrow>
          (case check_targets graph descendants_map source targets problematic_pairs of
             Inl e \<Rightarrow> Inl e
           | Inr problematic_pairs' \<Rightarrow>
               check_sources graph descendants_map rest problematic_pairs'))"

definition identify_broader_issues :: "'a digraph \<Rightarrow> py_error + 'a contradiction list" where
  "identify_broader_issues graph =
     (let descendants_map = map (\<lambda>n. (n, nx_descendants graph n)) (nodes graph)
      in check_sources graph descendants_map (nodes graph) [])"

section \<open>Edges, walks and cycles\<close>

text \<open>
  The edges of a dictionary of successor lists, the walks along them, and the closed walks
  that \<^verbatim>\<open>find_hierarchy_cycles\<close> reports: a report lists the nodes of the cycle once,
  the edge from its last node back to its first is implied.
\<close>

definition edges_of :: "('a \<times> 'a list) list \<Rightarrow> ('a \<times> 'a) set" where
  "edges_of g = {(u, v). v \<in> set (successors g u)}"

fun chain :: "('a \<times> 'a list) list \<Rightarrow> 'a list \<Rightarrow> bool" where
  "chain g [] = True"
| "chain g [x] = True"
| "chain g (x # y # ys) = (y \<in> set (successors g x) \<and> chain g (y # ys))"

definition is_walk :: "('a \<times> 'a list) list \<Rightarrow> 'a list \<Rightarrow> bool" where
  "is_walk g w \<longleftrightarrow> w \<noteq> [] \<and> chain g w"

definition is_cycle :: "('a \<times> 'a list) list \<Rightarrow> 'a list \<Rightarrow> bool" where
  "is_cycle g l \<longleftrightarrow> is_walk g l \<and> hd l \<in> set (successors g (last l))"

text \<open>
  \<open>grown d extra d'\<close>: the dictionary \<open>d'\<close> is \<open>d\<close> followed by the keys \<open>extra\<close>, each
  with an empty list; the keys are new, and each is a child of some key of \<open>d\<close>.
\<close>

definition grown :: "'a adjacency \<Rightarrow> 'a list \<Rightarrow> 'a adjacency \<Rightarrow> bool" where
  "grown d extra d' \<longleftrightarrow>
     d' = d @ map (\<lambda>k. (k, [])) extra \<and> distinct extra \<and>
     set extra \<inter> fst ` set d = {} \<and>
     set extra \<subseteq> (\<Union>kv \<in> set d. set (snd kv))"

text \<open>The invariants of the traversal.\<close>

definition trail_ok :: "'a dfs_state \<Rightarrow> bool" where
  "trail_ok st \<longleftrightarrow>
     stack st = set (trail st) \<and> distinct (trail st) \<and> chain (adjacency_list st) (trail st)"

definition reports_ok :: "('a::linorder) dfs_state \<Rightarrow> bool" where
  "reports_ok st \<longleftrightarrow>
     seen_signatures st = sort ` set (found_cycles st) \<and>
     distinct (map sort (found_cycles st)) \<and>
     (\<forall>l \<in> set (found_cycles st). is_cycle (adjacency_list st) l \<and> distinct l)"

definition called_on_node :: "'a dfs_state \<Rightarrow> 'a \<Rightarrow> bool" where
  "called_on_node st c \<longleftrightarrow>
     (if trail st = [] then c \<in> fst ` set (adjacency_list st)
      else c \<in> set (successors (adjacency_list st) (last (trail st))))"

definition dfs_post :: "('a::linorder) dfs_state \<Rightarrow> 'a dfs_state \<Rightarrow> bool" where
  "dfs_post st st' \<longleftrightarrow>
     trail_ok st' \<and> reports_ok st' \<and> trail st' = trail st \<and> stack st' = stack st \<and>
     (\<exists>extra. grown (adjacency_list st) extra (adjacency_list st')) \<and>
     visited st \<subseteq> visited st' \<and>
     (\<exists>new. found_cycles st' = found_cycles st @ new)"



section \<open>The detection phase of \<^verbatim>\<open>main\<close>\<close>

text \<open>
  During detection \<^verbatim>\<open>main\<close> holds the two structures \<^verbatim>\<open>tree\<close> and
  \<^verbatim>\<open>bt_graph\<close>. \<^verbatim>\<open>find_hierarchy_cycles(tree)\<close> reads \<^verbatim>\<open>tree\<close> through the
  \<^verbatim>\<open>defaultdict\<close> lookup, which can store keys, so it hands the dictionary on;
  \<^verbatim>\<open>identify_broader_issues(bt_graph)\<close> only iterates over the graph and calls
  \<^verbatim>\<open>nx.descendants\<close> and \<^verbatim>\<open>nx.shortest_path\<close>, which do not write to it.
\<close>

record 'a graphs =
  tree :: "'a adjacency"
  bt_graph :: "'a digraph"

definition detect_cycles :: "('a::linorder) graphs \<Rightarrow> py_error + 'a graphs \<times> 'a list list" where
  "detect_cycles gs =
     (case find_hierarchy_cycles (tree gs) of
        Inl e \<Rightarrow> Inl e
      | Inr (tree', loops) \<Rightarrow> Inr (gs\<lparr>tree := tree'\<rparr>, loops))"

definition detect_contradictions ::
  "'a graphs \<Rightarrow> py_error + 'a graphs \<times> 'a contradiction list" where
  "detect_contradictions gs =
     (case identify_broader_issues (bt_graph gs) of
        Inl e \<Rightarrow> Inl e
      | Inr contradictions \<Rightarrow> Inr (gs, contradictions))"

section \<open>Reachability and shortest walks\<close>

definition reachable :: "('a \<times> 'a list) list \<Rightarrow> 'a \<Rightarrow> 'a \<Rightarrow> bool" where
  "reachable g s t \<longleftrightarrow> (s, t) \<in> (edges_of g)\<^sup>*"

text \<open>A walk from \<open>s\<close> to \<open>t\<close> that no walk from \<open>s\<close> to \<open>t\<close> beats in number of edges.\<close>

definition shortest_walk :: "('a \<times> 'a list) list \<Rightarrow> 'a \<Rightarrow> 'a \<Rightarrow> 'a list \<Rightarrow> bool" where
  "shortest_walk g s t w \<longleftrightarrow>
     is_walk g w \<and> hd w = s \<and> last w = t \<and>
     (\<forall>w'. is_walk g w' \<and> hd w' = s \<and> last w' = t \<longrightarrow> length w \<le> length w')"

text \<open>The entry that \<^verbatim>\<open>identify_broader_issues\<close> appends for a pair, given the two paths.\<close>

definition report_of :: "'a digraph \<Rightarrow> 'a \<Rightarrow> 'a \<Rightarrow> 'a contradiction" where
  "report_of g s t =
     \<lparr>c_from = s, c_to = t,
      c_path = projr (nx_shortest_path g s t) @ tl (projr (nx_shortest_path g t s))\<rparr>"

text \<open>
  The targets for which \<^verbatim>\<open>identify_broader_issues\<close> appends an entry under a source:
  the descendants of the source that have the source among their own descendants.
\<close>

definition mutual_targets :: "'a digraph \<Rightarrow> 'a \<Rightarrow> 'a list" where
  "mutual_targets g s =
     filter (\<lambda>t. s \<in> set (dict_get (map (\<lambda>n. (n, nx_descendants g n)) (nodes g)) t []))
       (nx_descendants g s)"

section \<open>Sample inputs\<close>

definition sample_lines :: "string list" where
  "sample_lines =
     [''C1|A1|x|PAR|C2|zz\<newline>'',
      ''C1|A1|x|RB|C2|zz\<newline>'',
      ''C3|A1|x|CHD|C3|zz\<newline>'',
      ''C4|A1|x|SY|C5|zz\<newline>'',
      ''C6|A1|x|RN\<newline>'']"

definition sample_table :: file_system where
  "sample_table =
     [''MRREL.RRF'' \<mapsto> File sample_lines,
      ''META'' \<mapsto> Directory,
      ''locked.RRF'' \<mapsto> Unreadable,
      ''latin1.RRF'' \<mapsto> File [''C1|A1|x|PAR|C2|zz\<newline>'', [CHR 0x43, CHR 0xE9, CHR 0x0A]]]"

definition sample_graphs :: "string graphs" where
  "sample_graphs =
     \<lparr>tree = build_tree [(''A'', ''B'')],
      bt_graph = add_edges_from [] [(''A'', ''B''), (''B'', ''A'')]\<rparr>"

definition sample_cycle :: "string digraph" where
  "sample_cycle = add_edges_from [] [(''A'', ''B''), (''B'', ''C''), (''C'', ''A'')]"

section \<open>Properties of the loader\<close>

lemma classify_short: "length flds < 5 \<Longrightarrow> classify st flds = st"
  by (simp add: classify_def)

lemma classify_rel_kinds:
  "5 \<le> length flds \<Longrightarrow> rel_kinds (classify st flds) = insert (flds ! 3) (rel_kinds st)"
  by (simp add: classify_def Let_def)

lemma classify_child_relations:
  "child_relations (classify st flds) = child_relations st \<union> {e. hierarchy_record flds e}"
  by (auto simp: classify_def Let_def hierarchy_record_def)

lemma classify_broader_relations:
  "broader_relations (classify st flds) = broader_relations st \<union> {e. broader_record flds e}"
  by (auto simp: classify_def Let_def broader_record_def)

lemma foldl_child_relations:
  "child_relations (foldl read_line st ls) =
     child_relations st \<union> {e. \<exists>l \<in> set ls. hierarchy_record (fields_of l) e}"
  by (induction ls rule: rev_induct) (auto simp: read_line_def classify_child_relations)

lemma foldl_broader_relations:
  "broader_relations (foldl read_line st ls) =
     broader_relations st \<union> {e. \<exists>l \<in> set ls. broader_record (fields_of l) e}"
  by (induction ls rule: rev_induct) (auto simp: read_line_def classify_broader_relations)

lemma foldl_rel_kinds:
  "rel_kinds (foldl read_line st ls) =
     rel_kinds st \<union> {fields_of l ! 3 | l. l \<in> set ls \<and> 5 \<le> length (fields_of l)}"
proof (induction ls rule: rev_induct)
  case Nil
  then show ?case by simp
next
  case (snoc l ls)
  show ?case
  proof (cases "5 \<le> length (fields_of l)")
    case True
    then show ?thesis using snoc by (auto simp: read_line_def classify_rel_kinds)
  next
    case False
    then show ?thesis using snoc by (auto simp: read_line_def classify_short)
  qed
qed

lemma sample_fields:
  "fields_of ''C1|A1|x|PAR|C2|zz\<newline>'' = [''C1'', ''A1'', ''x'', ''PAR'', ''C2'', ''zz'']"
  "fields_of ''C1|A1|x|RB|C2|zz\<newline>'' = [''C1'', ''A1'', ''x'', ''RB'', ''C2'', ''zz'']"
  "fields_of ''C3|A1|x|CHD|C3|zz\<newline>'' = [''C3'', ''A1'', ''x'', ''CHD'', ''C3'', ''zz'']"
  "fields_of ''C4|A1|x|SY|C5|zz\<newline>'' = [''C4'', ''A1'', ''x'', ''SY'', ''C5'', ''zz'']"
  "fields_of ''C6|A1|x|RN\<newline>'' = [''C6'', ''A1'', ''x'', ''RN'']"
  by code_simp+

lemma sample_valid: "\<forall>l \<in> set sample_lines. valid_utf8 l"
  by code_simp

lemma count_lines_valid:
  "(\<forall>l \<in> set ls. valid_utf8 l) \<Longrightarrow> count_lines ls = Inr (length ls)"
  by (induction ls) simp_all

lemma count_lines_invalid:
  "\<exists>l \<in> set ls. \<not> valid_utf8 l \<Longrightarrow> count_lines ls = Inl UnicodeDecodeError"
proof (induction ls)
  case (Cons a ls)
  then show ?case by (cases "\<forall>l \<in> set ls. valid_utf8 l") auto
qed simp

lemma read_lines_valid:
  "(\<forall>l \<in> set ls. valid_utf8 l) \<Longrightarrow> read_lines st ls = Inr (foldl read_line st ls)"
  by (induction ls arbitrary: st) simp_all

lemma open_and_count_missing:
  "fs filepath = None \<Longrightarrow> open_and_count fs filepath = Inl (FileNotFoundError filepath)"
  by (simp add: open_and_count_def)

lemma open_and_count_directory:
  "fs filepath = Some Directory \<Longrightarrow> open_and_count fs filepath = Inl IsADirectoryError"
  by (simp add: open_and_count_def open_text_def)

lemma open_and_count_unreadable:
  "fs filepath = Some Unreadable \<Longrightarrow> open_and_count fs filepath = Inl PermissionError"
  by (simp add: open_and_count_def open_text_def)

lemma open_and_count_invalid:
  "fs filepath = Some (File ls) \<Longrightarrow> \<exists>l \<in> set ls. \<not> valid_utf8 l \<Longrightarrow>
   open_and_count fs filepath = Inl UnicodeDecodeError"
  by (simp add: open_and_count_def open_text_def count_lines_invalid)

lemma open_and_count_valid:
  "fs filepath = Some (File ls) \<Longrightarrow> \<forall>l \<in> set ls. valid_utf8 l \<Longrightarrow>
   open_and_count fs filepath = Inr (ls, length ls)"
  by (simp add: open_and_count_def open_text_def count_lines_valid)

lemma load_file:
  "fs filepath = Some (File ls) \<Longrightarrow> \<forall>l \<in> set ls. valid_utf8 l \<Longrightarrow>
   load_relationships fs filepath = Inr (foldl read_line init_state ls)"
  by (simp add: load_relationships_def open_and_count_valid read_lines_valid)

lemma load_returns:
  assumes "load_relationships fs filepath = Inr r"
  shows "\<exists>ls. fs filepath = Some (File ls) \<and> (\<forall>l \<in> set ls. valid_utf8 l) \<and>
              r = foldl read_line init_state ls"
proof (cases "fs filepath")
  case None
  with assms show ?thesis
    by (simp add: load_relationships_def open_and_count_missing)
next
  case (Some node)
  show ?thesis
  proof (cases node)
    case Directory
    with Some assms show ?thesis
      by (simp add: load_relationships_def open_and_count_directory)
  next
    case Unreadable
    with Some assms show ?thesis
      by (simp add: load_relationships_def open_and_count_unreadable)
  next
    case (File ls)
    show ?thesis
    proof (cases "\<forall>l \<in> set ls. valid_utf8 l")
      case True
      with Some File assms show ?thesis
        by (simp add: load_file)
    next
      case False
      with Some File assms show ?thesis
        by (simp add: load_relationships_def open_and_count_invalid)
    qed
  qed
qed

lemma sample_load:
  "load_relationships sample_table ''MRREL.RRF'' =
     Inr \<lparr>child_relations = {(''C1'', ''C2'')},
          broader_relations = {(''C1'', ''C2'')},
          repeats = [(''C1'', ''C2'') \<mapsto> 2],
          reflexives = {(''C3'', ''CHD'')},
          rel_kinds = {''PAR'', ''RB'', ''CHD'', ''SY''}\<rparr>"
proof -
  have "load_relationships sample_table ''MRREL.RRF'' = Inr (foldl read_line init_state sample_lines)"
    by (rule load_file [OF _ sample_valid]) (simp add: sample_table_def)
  also have "foldl read_line init_state sample_lines =
     \<lparr>child_relations = {(''C1'', ''C2'')},
      broader_relations = {(''C1'', ''C2'')},
      repeats = [(''C1'', ''C2'') \<mapsto> 2],
      reflexives = {(''C3'', ''CHD'')},
      rel_kinds = {''PAR'', ''RB'', ''CHD'', ''SY''}\<rparr>"
    apply (simp add: sample_lines_def read_line_def sample_fields)
    apply (simp add: classify_def Let_def init_state_def counter_incr_def counter_get_def)
    apply auto
    done
  finally show ?thesis .
qed

text \<open>
  Claim C4. A record of at least five fields whose source and target differ is classified
  by its relation code: \<^verbatim>\<open>CHD\<close> adds the hierarchy edge (target, source), \<^verbatim>\<open>PAR\<close>
  the hierarchy edge (source, target), \<^verbatim>\<open>RB\<close> the broader-than edge (source, target),
  \<^verbatim>\<open>RN\<close> the broader-than edge (target, source); the other graph is left as it was, and
  any other code leaves both graphs as they were.
\<close>

theorem classify_four_way:
  assumes "5 \<le> length flds" and "flds ! 0 = src" and "flds ! 3 = rel" and "flds ! 4 = tgt"
    and "src \<noteq> tgt"
  shows "(rel = ''CHD'' \<longrightarrow>
            child_relations (classify st flds) = insert (tgt, src) (child_relations st) \<and>
            broader_relations (classify st flds) = broader_relations st) \<and>
         (rel = ''PAR'' \<longrightarrow>
            child_relations (classify st flds) = insert (src, tgt) (child_relations st) \<and>
            broader_relations (classify st flds) = broader_relations st) \<and>
         (rel = ''RB'' \<longrightarrow>
            broader_relations (classify st flds) = insert (src, tgt) (broader_relations st) \<and>
            child_relations (classify st flds) = child_relations st) \<and>
         (rel = ''RN'' \<longrightarrow>
            broader_relations (classify st flds) = insert (tgt, src) (broader_relations st) \<and>
            child_relations (classify st flds) = child_relations st) \<and>
         (rel \<notin> {''CHD'', ''PAR'', ''RB'', ''RN''} \<longrightarrow>
            child_relations (classify st flds) = child_relations st \<and>
            broader_relations (classify st flds) = broader_relations st)"
  using assms by (simp add: classify_def Let_def)

theorem classify_four_way_witness:
  "fields_of ''C1|A1|x|CHD|C2|zz\<newline>'' = [''C1'', ''A1'', ''x'', ''CHD'', ''C2'', ''zz''] \<and>
   child_relations (read_line init_state ''C1|A1|x|CHD|C2|zz\<newline>'') = {(''C2'', ''C1'')} \<and>
   broader_relations (read_line init_state ''C1|A1|x|CHD|C2|zz\<newline>'') = {} \<and>
   broader_relations (classify init_state [''C1'', ''A1'', ''x'', ''RN'', ''C2'']) = {(''C2'', ''C1'')} \<and>
   child_relations (classify init_state [''C1'', ''A1'', ''x'', ''SY'', ''C2'']) = {}"
proof -
  have f: "fields_of ''C1|A1|x|CHD|C2|zz\<newline>'' = [''C1'', ''A1'', ''x'', ''CHD'', ''C2'', ''zz'']"
    by code_simp
  have e: "child_relations init_state = {}" "broader_relations init_state = {}"
    by (simp_all add: init_state_def)
  from classify_four_way [of "[''C1'', ''A1'', ''x'', ''CHD'', ''C2'', ''zz'']" "''C1''" "''CHD''" "''C2''" init_state]
       classify_four_way [of "[''C1'', ''A1'', ''x'', ''RN'', ''C2'']" "''C1''" "''RN''" "''C2''" init_state]
       classify_four_way [of "[''C1'', ''A1'', ''x'', ''SY'', ''C2'']" "''C1''" "''SY''" "''C2''" init_state]
  show ?thesis by (simp add: read_line_def f e)
qed

text \<open>
  Claim C6. A record of at least five fields whose source equals its target leaves both
  graphs and the multiplicity counter as they were, whatever its relation code, and puts
  the pair (source, relation code) into the set of reflexive links. Hence no graph that
  \<^verbatim>\<open>load_relationships\<close> returns has an edge from a node to itself.
\<close>

theorem reflexive_records_diverted:
  "(5 \<le> length flds \<and> flds ! 0 = flds ! 4 \<longrightarrow>
      child_relations (classify st flds) = child_relations st \<and>
      broader_relations (classify st flds) = broader_relations st \<and>
      repeats (classify st flds) = repeats st \<and>
      reflexives (classify st flds) = insert (flds ! 0, flds ! 3) (reflexives st)) \<and>
   (load_relationships fs filepath = Inr r \<longrightarrow>
      (\<forall>a. (a, a) \<notin> child_relations r \<and> (a, a) \<notin> broader_relations r))"
proof (intro conjI impI)
  assume "load_relationships fs filepath = Inr r"
  from load_returns [OF this] obtain ls where r: "r = foldl read_line init_state ls"
    by (elim exE conjE)
  show "\<forall>a. (a, a) \<notin> child_relations r \<and> (a, a) \<notin> broader_relations r"
    unfolding r foldl_child_relations foldl_broader_relations
    by (auto simp: init_state_def hierarchy_record_def broader_record_def)
qed (simp_all add: classify_def Let_def)

theorem reflexive_records_diverted_witness:
  "reflexives (classify init_state [''C3'', ''A1'', ''x'', ''CHD'', ''C3'', ''zz'']) = {(''C3'', ''CHD'')} \<and>
   child_relations (classify init_state [''C3'', ''A1'', ''x'', ''CHD'', ''C3'', ''zz'']) = {} \<and>
   (\<exists>r. load_relationships sample_table ''MRREL.RRF'' = Inr r \<and>
        reflexives r = {(''C3'', ''CHD'')} \<and>
        (''C3'', ''C3'') \<notin> child_relations r \<and> (''C3'', ''C3'') \<notin> broader_relations r)"
  using reflexive_records_diverted
          [of "[''C3'', ''A1'', ''x'', ''CHD'', ''C3'', ''zz'']" init_state sample_table "''MRREL.RRF''"]
  by (simp add: sample_load init_state_def)

text \<open>
  Claim C7, as stated: no directed pair is an edge of both graphs. The sample table has a
  \<^verbatim>\<open>PAR\<close> record and an \<^verbatim>\<open>RB\<close> record for the same pair, and the pair is then an edge
  of both.
\<close>

theorem graphs_share_edge_counterexample:
  "load_relationships
     [''f'' \<mapsto> File [''C1|A1|x|PAR|C2|zz\<newline>'', ''C1|A1|x|RB|C2|zz\<newline>'']] ''f'' =
     Inr \<lparr>child_relations = {(''C1'', ''C2'')},
          broader_relations = {(''C1'', ''C2'')},
          repeats = [(''C1'', ''C2'') \<mapsto> 2],
          reflexives = {},
          rel_kinds = {''PAR'', ''RB''}\<rparr>"
proof -
  have v: "\<forall>l \<in> set [''C1|A1|x|PAR|C2|zz\<newline>'', ''C1|A1|x|RB|C2|zz\<newline>'']. valid_utf8 l"
    by code_simp
  have "load_relationships
          [''f'' \<mapsto> File [''C1|A1|x|PAR|C2|zz\<newline>'', ''C1|A1|x|RB|C2|zz\<newline>'']] ''f'' =
        Inr (foldl read_line init_state [''C1|A1|x|PAR|C2|zz\<newline>'', ''C1|A1|x|RB|C2|zz\<newline>''])"
    by (rule load_file [OF _ v]) simp
  also have "foldl read_line init_state [''C1|A1|x|PAR|C2|zz\<newline>'', ''C1|A1|x|RB|C2|zz\<newline>''] =
     \<lparr>child_relations = {(''C1'', ''C2'')},
      broader_relations = {(''C1'', ''C2'')},
      repeats = [(''C1'', ''C2'') \<mapsto> 2],
      reflexives = {},
      rel_kinds = {''PAR'', ''RB''}\<rparr>"
    apply (simp add: read_line_def sample_fields)
    apply (simp add: classify_def Let_def init_state_def counter_incr_def counter_get_def)
    apply auto
    done
  finally show ?thesis .
qed

text \<open>
  Claim C7, amended. The two graphs are filled independently of each other: the hierarchy
  edges are exactly the edges of the \<^verbatim>\<open>CHD\<close> and \<^verbatim>\<open>PAR\<close> records of the file
  (source and target different, at least five fields), the broader-than edges exactly
  those of its \<^verbatim>\<open>RB\<close> and \<^verbatim>\<open>RN\<close> records. A directed pair is an edge of both
  exactly when the file has a record of each kind for it.
\<close>

theorem graphs_filled_independently:
  assumes "load_relationships fs filepath = Inr r"
  shows "\<exists>ls. fs filepath = Some (File ls) \<and>
           child_relations r = {e. \<exists>l \<in> set ls. hierarchy_record (fields_of l) e} \<and>
           broader_relations r = {e. \<exists>l \<in> set ls. broader_record (fields_of l) e}"
proof -
  from load_returns [OF assms] obtain ls where
    ls: "fs filepath = Some (File ls)" and r: "r = foldl read_line init_state ls"
    by (elim exE conjE)
  show ?thesis
    unfolding r foldl_child_relations foldl_broader_relations
    using ls by (simp add: init_state_def)
qed

theorem graphs_filled_independently_witness:
  "\<exists>r. load_relationships sample_table ''MRREL.RRF'' = Inr r \<and>
       hierarchy_record (fields_of ''C1|A1|x|PAR|C2|zz\<newline>'') (''C1'', ''C2'') \<and>
       broader_record (fields_of ''C1|A1|x|RB|C2|zz\<newline>'') (''C1'', ''C2'') \<and>
       (''C1'', ''C2'') \<in> child_relations r \<and> (''C1'', ''C2'') \<in> broader_relations r \<and>
       sample_table ''MRREL.RRF'' = Some (File sample_lines) \<and>
       child_relations r = {e. \<exists>l \<in> set sample_lines. hierarchy_record (fields_of l) e}"
proof -
  obtain r where r: "load_relationships sample_table ''MRREL.RRF'' = Inr r"
    by (simp add: sample_load)
  from graphs_filled_independently [OF r] obtain ls where
    ls: "sample_table ''MRREL.RRF'' = Some (File ls)"
    and c: "child_relations r = {e. \<exists>l \<in> set ls. hierarchy_record (fields_of l) e}"
    by (elim exE conjE)
  have t: "sample_table ''MRREL.RRF'' = Some (File sample_lines)"
    by (simp add: sample_table_def)
  from ls t have eq: "ls = sample_lines"
    by simp
  have h: "hierarchy_record (fields_of ''C1|A1|x|PAR|C2|zz\<newline>'') (''C1'', ''C2'')"
    by (simp add: sample_fields hierarchy_record_def)
  have b: "broader_record (fields_of ''C1|A1|x|RB|C2|zz\<newline>'') (''C1'', ''C2'')"
    by (simp add: sample_fields broader_record_def)
  have m: "(''C1'', ''C2'') \<in> child_relations r \<and> (''C1'', ''C2'') \<in> broader_relations r"
    using r by (auto simp: sample_load)
  show ?thesis
    using r h b m c t unfolding eq by simp
qed

text \<open>
  Claim C8, as stated: the relation code of every record is observed, malformed records
  included. A line of four fields has a relation code in field 3, and reading it leaves
  the set of observed codes empty.
\<close>

theorem short_record_not_observed_counterexample:
  "fields_of ''C6|A1|x|RN\<newline>'' = [''C6'', ''A1'', ''x'', ''RN''] \<and>
   rel_kinds (read_line init_state ''C6|A1|x|RN\<newline>'') = {}"
  by (simp add: sample_fields read_line_def classify_def init_state_def)

text \<open>
  Claim C8, amended. The relation code of every record of at least five fields is put into
  the set of observed codes, whether the record is reflexive, of an unknown code or gives
  an edge; a line of fewer than five fields changes nothing. So the observed codes of a
  file that can be read and decoded are exactly the codes in field 3 of its lines of at
  least five fields.
\<close>

theorem rel_kinds_observed:
  "(5 \<le> length (fields_of line) \<longrightarrow>
      rel_kinds (read_line st line) = insert (fields_of line ! 3) (rel_kinds st)) \<and>
   (length (fields_of line) < 5 \<longrightarrow> read_line st line = st) \<and>
   (fs filepath = Some (File ls) \<and> (\<forall>l \<in> set ls. valid_utf8 l) \<longrightarrow>
      (\<exists>r. load_relationships fs filepath = Inr r \<and>
           rel_kinds r = {fields_of l ! 3 | l. l \<in> set ls \<and> 5 \<le> length (fields_of l)}))"
  by (simp add: read_line_def classify_rel_kinds classify_short load_file
      foldl_rel_kinds init_state_def)

theorem rel_kinds_observed_witness:
  "rel_kinds (read_line init_state ''C3|A1|x|CHD|C3|zz\<newline>'') = {''CHD''} \<and>
   rel_kinds (read_line init_state ''C4|A1|x|SY|C5|zz\<newline>'') = {''SY''} \<and>
   read_line init_state ''C6|A1|x|RN\<newline>'' = init_state \<and>
   (\<exists>r. load_relationships sample_table ''MRREL.RRF'' = Inr r \<and>
        rel_kinds r = {''PAR'', ''RB'', ''CHD'', ''SY''})"
  using rel_kinds_observed [of "''C3|A1|x|CHD|C3|zz\<newline>''" init_state sample_table "''MRREL.RRF''"]
        rel_kinds_observed [of "''C4|A1|x|SY|C5|zz\<newline>''" init_state sample_table "''MRREL.RRF''"]
        rel_kinds_observed [of "''C6|A1|x|RN\<newline>''" init_state sample_table "''MRREL.RRF''"]
  by (simp add: sample_fields sample_load) (simp add: init_state_def)

text \<open>
  Claim C9, as stated: \<^verbatim>\<open>load_relationships\<close> fails exactly when the path does not
  exist, and for a file that exists no content of a line makes it fail. A directory is a
  path that exists, and \<^verbatim>\<open>open\<close> raises \<^verbatim>\<open>IsADirectoryError\<close> for it; a file whose
  second line holds the byte E9 on its own (the letter e with an acute accent in Latin-1)
  exists, and reading it raises \<^verbatim>\<open>UnicodeDecodeError\<close>.
\<close>

theorem existing_path_fails_counterexample:
  "sample_table ''META'' = Some Directory \<and>
   load_relationships sample_table ''META'' = Inl IsADirectoryError \<and>
   sample_table ''latin1.RRF'' =
     Some (File [''C1|A1|x|PAR|C2|zz\<newline>'', [CHR 0x43, CHR 0xE9, CHR 0x0A]]) \<and>
   load_relationships sample_table ''latin1.RRF'' = Inl UnicodeDecodeError"
proof -
  have d: "sample_table ''META'' = Some Directory"
    by (simp add: sample_table_def)
  have f: "sample_table ''latin1.RRF'' =
             Some (File [''C1|A1|x|PAR|C2|zz\<newline>'', [CHR 0x43, CHR 0xE9, CHR 0x0A]])"
    by (simp add: sample_table_def)
  have i: "\<exists>l \<in> set [''C1|A1|x|PAR|C2|zz\<newline>'', [CHR 0x43, CHR 0xE9, CHR 0x0A]]. \<not> valid_utf8 l"
    by code_simp
  show ?thesis
    using d f i
    by (simp add: load_relationships_def open_and_count_directory open_and_count_invalid)
qed

text \<open>
  Claim C9, amended. \<^verbatim>\<open>load_relationships\<close> fails exactly when the path does not exist
  (\<^verbatim>\<open>FileNotFoundError\<close>), or is a directory, or may not be read, or holds a line that
  is not well-formed UTF-8. Every failure is raised before the loop parses a record: the
  function fails with an error exactly when \<open>open_and_count\<close>, the part before the
  loop, fails with it, and no accumulator is returned. For a file that can be read and
  decoded, whatever its lines hold, the result is the state reached by reading every line.
\<close>

theorem load_fails_before_loop:
  "(load_relationships fs filepath = Inl e \<longleftrightarrow> open_and_count fs filepath = Inl e) \<and>
   ((\<exists>e. load_relationships fs filepath = Inl e) \<longleftrightarrow>
      fs filepath = None \<or> fs filepath = Some Directory \<or> fs filepath = Some Unreadable \<or>
      (\<exists>ls. fs filepath = Some (File ls) \<and> (\<exists>l \<in> set ls. \<not> valid_utf8 l))) \<and>
   (fs filepath = None \<longrightarrow>
      load_relationships fs filepath = Inl (FileNotFoundError filepath)) \<and>
   (fs filepath = Some Directory \<longrightarrow>
      load_relationships fs filepath = Inl IsADirectoryError) \<and>
   (fs filepath = Some Unreadable \<longrightarrow>
      load_relationships fs filepath = Inl PermissionError) \<and>
   (\<forall>ls. fs filepath = Some (File ls) \<longrightarrow>
      load_relationships fs filepath =
        (if \<forall>l \<in> set ls. valid_utf8 l then Inr (foldl read_line init_state ls)
         else Inl UnicodeDecodeError))"
proof (cases "fs filepath")
  case None
  then show ?thesis
    by (simp add: load_relationships_def open_and_count_missing)
next
  case (Some node)
  show ?thesis
  proof (cases node)
    case Directory
    with Some show ?thesis
      by (simp add: load_relationships_def open_and_count_directory)
  next
    case Unreadable
    with Some show ?thesis
      by (simp add: load_relationships_def open_and_count_unreadable)
  next
    case (File ls)
    with Some have f: "fs filepath = Some (File ls)"
      by simp
    show ?thesis
    proof (cases "\<forall>l \<in> set ls. valid_utf8 l")
      case True
      then show ?thesis
        using f by (simp add: load_file open_and_count_valid)
    next
      case False
      then have i: "\<exists>l \<in> set ls. \<not> valid_utf8 l"
        by simp
      show ?thesis
        using f i by (simp add: load_relationships_def open_and_count_invalid)
    qed
  qed
qed

theorem load_fails_before_loop_witness:
  "load_relationships sample_table ''nowhere'' = Inl (FileNotFoundError ''nowhere'') \<and>
   load_relationships sample_table ''META'' = Inl IsADirectoryError \<and>
   load_relationships sample_table ''locked.RRF'' = Inl PermissionError \<and>
   open_and_count sample_table ''locked.RRF'' = Inl PermissionError \<and>
   load_relationships sample_table ''MRREL.RRF'' = Inr (foldl read_line init_state sample_lines) \<and>
   (\<forall>e. load_relationships sample_table ''MRREL.RRF'' \<noteq> Inl e)"
proof -
  have t: "sample_table ''nowhere'' = None" "sample_table ''META'' = Some Directory"
    "sample_table ''locked.RRF'' = Some Unreadable"
    "sample_table ''MRREL.RRF'' = Some (File sample_lines)"
    by (simp_all add: sample_table_def)
  from load_fails_before_loop [of sample_table "''nowhere''"]
       load_fails_before_loop [of sample_table "''META''"]
       load_fails_before_loop [of sample_table "''locked.RRF''" PermissionError]
       load_fails_before_loop [of sample_table "''MRREL.RRF''"]
  show ?thesis
    using sample_valid by (auto simp: t)
qed

section \<open>Properties of the traversal\<close>

lemma successors_append_empty:
  "successors (d @ map (\<lambda>k. (k, [])) extra) = successors d"
proof
  fix u
  have e: "map_of (map (\<lambda>k. (k, [])) extra) u = (if u \<in> set extra then Some [] else None)"
    by (induction extra) auto
  show "successors (d @ map (\<lambda>k. (k, [])) extra) u = successors d u"
    by (cases "map_of d u") (auto simp: successors_def map_add_def e)
qed

lemma grown_successors: "grown d extra d' \<Longrightarrow> successors d' = successors d"
  by (simp add: grown_def successors_append_empty)

lemma grown_refl: "grown d [] d"
  by (simp add: grown_def)

lemma grown_trans:
  assumes "grown d e1 d1" and "grown d1 e2 d2"
  shows "grown d (e1 @ e2) d2"
proof -
  from assms(1) have d1: "d1 = d @ map (\<lambda>k. (k, [])) e1" by (simp add: grown_def)
  have keys: "fst ` set d1 = fst ` set d \<union> set e1" unfolding d1 by force
  have kids: "(\<Union>kv \<in> set d1. set (snd kv)) = (\<Union>kv \<in> set d. set (snd kv))"
    unfolding d1 by auto
  from assms show ?thesis
    unfolding grown_def keys kids by (auto simp: d1)
qed

lemma chain_cong: "successors g' = successors g \<Longrightarrow> chain g' w = chain g w"
  by (induction g w rule: chain.induct) auto

lemma chain_snoc:
  "chain g (xs @ [y]) \<longleftrightarrow> chain g xs \<and> (xs = [] \<or> y \<in> set (successors g (last xs)))"
  by (induction g xs rule: chain.induct) auto

lemma chain_suffix: "chain g (xs @ ys) \<Longrightarrow> chain g ys"
proof (induction g xs rule: chain.induct)
  case (2 g x)
  then show ?case by (cases ys) auto
qed auto

lemma chain_drop: "chain g xs \<Longrightarrow> chain g (drop n xs)"
  using chain_suffix [of g "take n xs" "drop n xs"] by simp

lemma chain_butlast: "chain g xs \<Longrightarrow> chain g (butlast xs)"
  by (cases xs rule: rev_cases) (auto simp: chain_snoc)

lemma index_of_Some: "x \<in> set xs \<Longrightarrow> \<exists>i. index_of xs x = Some i \<and> i < length xs \<and> xs ! i = x"
  by (induction xs) auto

lemma successors_in_dict:
  assumes "v \<in> set (successors d u)"
  shows "v \<in> (\<Union>kv \<in> set d. set (snd kv))"
proof -
  from assms obtain vs where m: "map_of d u = Some vs" and v: "v \<in> set vs"
    by (cases "map_of d u") (auto simp: successors_def)
  from m have "(u, vs) \<in> set d" by (rule map_of_SomeD)
  with v show ?thesis by force
qed

lemma record_loop_post:
  assumes t: "trail_ok st" and r: "reports_ok st" and c: "current \<in> stack st"
    and n: "called_on_node st current"
  shows "\<exists>st'. record_loop st current = Inr st' \<and> dfs_post st st'"
proof -
  from t c have mem: "current \<in> set (trail st)" by (simp add: trail_ok_def)
  from index_of_Some [OF mem] obtain idx where idx: "index_of (trail st) current = Some idx"
    and lt: "idx < length (trail st)" and nth: "trail st ! idx = current"
    by (elim exE conjE)
  define loop where "loop = drop idx (trail st)"
  from mem have ne: "trail st \<noteq> []" by auto
  with n have closing: "current \<in> set (successors (adjacency_list st) (last (trail st)))"
    by (simp add: called_on_node_def)
  have l1: "loop \<noteq> []" using lt by (simp add: loop_def)
  have l2: "hd loop = current" unfolding loop_def using lt nth by (simp add: hd_drop_conv_nth)
  have l3: "last loop = last (trail st)" unfolding loop_def using lt by simp
  have l4: "chain (adjacency_list st) loop"
    unfolding loop_def using t by (simp add: trail_ok_def chain_drop)
  have l5: "distinct loop" unfolding loop_def using t by (simp add: trail_ok_def)
  have cyc: "is_cycle (adjacency_list st) loop"
    unfolding is_cycle_def is_walk_def using l1 l2 l3 l4 closing by simp
  from r have r1: "seen_signatures st = sort ` set (found_cycles st)"
    and r2: "distinct (map sort (found_cycles st))"
    and r3: "\<forall>l \<in> set (found_cycles st). is_cycle (adjacency_list st) l \<and> distinct l"
    by (simp_all add: reports_ok_def)
  show ?thesis
  proof (cases "sort loop \<in> seen_signatures st")
    case True
    then have "record_loop st current = Inr st"
      unfolding record_loop_def loop_def by (simp add: idx)
    moreover have "\<exists>extra. grown (adjacency_list st) extra (adjacency_list st)"
      using grown_refl [of "adjacency_list st"] by (rule exI)
    then have "dfs_post st st"
      unfolding dfs_post_def using t r by simp
    ultimately show ?thesis by (intro exI conjI)
  next
    case False
    define st' where "st' = st\<lparr>seen_signatures := insert (sort loop) (seen_signatures st),
                               found_cycles := found_cycles st @ [loop]\<rparr>"
    from False have res: "record_loop st current = Inr st'"
      unfolding record_loop_def loop_def st'_def by (simp add: idx Let_def)
    have t': "trail_ok st'" using t by (simp add: trail_ok_def st'_def)
    have s1: "seen_signatures st' = sort ` set (found_cycles st')"
      by (simp add: st'_def r1)
    have s2: "distinct (map sort (found_cycles st'))"
      using r2 False by (simp add: st'_def r1)
    have s3: "\<forall>l \<in> set (found_cycles st'). is_cycle (adjacency_list st') l \<and> distinct l"
      using r3 cyc l5 by (simp add: st'_def)
    have r': "reports_ok st'" unfolding reports_ok_def using s1 s2 s3 by (intro conjI)
    have "adjacency_list st' = adjacency_list st" by (simp add: st'_def)
    then have g: "\<exists>extra. grown (adjacency_list st) extra (adjacency_list st')"
      using grown_refl [of "adjacency_list st"] by (intro exI [of _ "[]"]) simp
    have f: "\<exists>new. found_cycles st' = found_cycles st @ new" by (simp add: st'_def)
    have e: "trail st' = trail st" "stack st' = stack st" "visited st \<subseteq> visited st'"
      by (simp_all add: st'_def)
    have "dfs_post st st'"
      unfolding dfs_post_def using t' r' g f e by (intro conjI)
    with res show ?thesis by (intro exI conjI)
  qed
qed

lemma getitem_grown:
  assumes "dd_getitem d k = (d', ns)"
    and "k \<in> fst ` set d \<or> k \<in> (\<Union>kv \<in> set d. set (snd kv))"
  shows "(\<exists>extra. grown d extra d') \<and> ns = successors d k"
proof (cases "map_of d k")
  case None
  then have nk: "k \<notin> fst ` set d" by (simp add: map_of_eq_None_iff)
  from None assms(1) have "d' = d @ map (\<lambda>k. (k, [])) [k]" and "ns = []"
    by (simp_all add: dd_getitem_def)
  with nk assms(2) None have "grown d [k] d'" and "ns = successors d k"
    by (auto simp: grown_def successors_def)
  then show ?thesis by blast
next
  case (Some vs)
  with assms(1) have "d' = d" and "ns = successors d k"
    by (simp_all add: dd_getitem_def successors_def)
  then show ?thesis using grown_refl by blast
qed

lemma called_on_node_in_dict:
  assumes "called_on_node st c"
  shows "c \<in> fst ` set (adjacency_list st) \<or>
         c \<in> (\<Union>kv \<in> set (adjacency_list st). set (snd kv))"
proof (cases "trail st = []")
  case True
  with assms show ?thesis by (simp add: called_on_node_def)
next
  case False
  with assms have "c \<in> set (successors (adjacency_list st) (last (trail st)))"
    by (simp add: called_on_node_def)
  then show ?thesis by (blast dest: successors_in_dict)
qed

lemma dfs_post_trans:
  assumes a: "dfs_post st st1" and b: "dfs_post st1 st2"
  shows "dfs_post st st2"
proof -
  from a obtain e1 n1 where g1: "grown (adjacency_list st) e1 (adjacency_list st1)"
    and f1: "found_cycles st1 = found_cycles st @ n1"
    unfolding dfs_post_def by blast
  from b obtain e2 n2 where g2: "grown (adjacency_list st1) e2 (adjacency_list st2)"
    and f2: "found_cycles st2 = found_cycles st1 @ n2"
    unfolding dfs_post_def by blast
  have g: "\<exists>extra. grown (adjacency_list st) extra (adjacency_list st2)"
    using grown_trans [OF g1 g2] by blast
  have f: "\<exists>new. found_cycles st2 = found_cycles st @ new"
    using f1 f2 by simp
  have v: "visited st \<subseteq> visited st2"
    using a b unfolding dfs_post_def by blast
  have t: "trail st2 = trail st" "stack st2 = stack st" "trail_ok st2" "reports_ok st2"
    using a b unfolding dfs_post_def by simp_all
  show ?thesis
    unfolding dfs_post_def using g f v t by simp
qed

lemma is_cycle_cong: "successors g' = successors g \<Longrightarrow> is_cycle g' l = is_cycle g l"
  using chain_cong [of g' g l] by (simp add: is_cycle_def is_walk_def)

lemma enter_getitem_ok:
  assumes t: "trail_ok st" and r: "reports_ok st" and ns: "current \<notin> stack st"
    and n: "called_on_node st current"
    and g: "dd_getitem (adjacency_list (enter st current)) current = (d, nbrs)"
  shows "trail_ok (enter st current\<lparr>adjacency_list := d\<rparr>)"
    and "reports_ok (enter st current\<lparr>adjacency_list := d\<rparr>)"
    and "\<exists>extra. grown (adjacency_list st) extra d"
    and "nbrs = successors d current"
proof -
  have a: "adjacency_list (enter st current) = adjacency_list st" by (simp add: enter_def)
  from getitem_grown [OF g [unfolded a] called_on_node_in_dict [OF n]]
  obtain extra where gr: "grown (adjacency_list st) extra d"
    and nb: "nbrs = successors (adjacency_list st) current"
    by (elim exE conjE)
  have s: "successors d = successors (adjacency_list st)" by (rule grown_successors [OF gr])
  from gr show "\<exists>extra. grown (adjacency_list st) extra d" by (rule exI)
  from nb s show "nbrs = successors d current" by simp
  from t have t1: "stack st = set (trail st)" and t2: "distinct (trail st)"
    and t3: "chain (adjacency_list st) (trail st)"
    by (simp_all add: trail_ok_def)
  have c: "trail st = [] \<or> current \<in> set (successors (adjacency_list st) (last (trail st)))"
    using n by (cases "trail st = []") (simp_all add: called_on_node_def)
  have "chain d (trail st @ [current])"
    unfolding chain_snoc chain_cong [OF s] using t3 c by (simp add: s)
  then show "trail_ok (enter st current\<lparr>adjacency_list := d\<rparr>)"
    using t1 t2 ns by (simp add: trail_ok_def enter_def)
  from r show "reports_ok (enter st current\<lparr>adjacency_list := d\<rparr>)"
    by (simp add: reports_ok_def enter_def is_cycle_cong [OF s])
qed

lemma leave_ok:
  assumes t: "trail_ok st2" and r: "reports_ok st2"
    and tr: "trail st2 = tr0 @ [current]" and sk: "stack st2 = insert current sk0"
    and ns: "current \<notin> sk0"
  shows "\<exists>st3. leave st2 current = Inr st3 \<and> trail_ok st3 \<and> reports_ok st3 \<and>
           trail st3 = tr0 \<and> stack st3 = sk0 \<and>
           adjacency_list st3 = adjacency_list st2 \<and> visited st3 = visited st2 \<and>
           found_cycles st3 = found_cycles st2"
proof -
  define st3 where "st3 = st2\<lparr>trail := butlast (trail st2), stack := stack st2 - {current}\<rparr>"
  have l: "leave st2 current = Inr st3"
    by (simp add: leave_def tr sk st3_def)
  from t have t1: "stack st2 = set (trail st2)" and t2: "distinct (trail st2)"
    and t3: "chain (adjacency_list st2) (trail st2)"
    by (simp_all add: trail_ok_def)
  have e1: "trail st3 = tr0" by (simp add: st3_def tr)
  have e2: "stack st3 = sk0" using ns by (simp add: st3_def sk)
  have "sk0 = set tr0" using t1 t2 ns unfolding tr sk by auto
  moreover have "distinct tr0" using t2 unfolding tr by simp
  moreover have "chain (adjacency_list st2) tr0" using t3 unfolding tr by (simp add: chain_snoc)
  ultimately have t': "trail_ok st3"
    unfolding trail_ok_def e1 e2 by (simp add: st3_def)
  have r': "reports_ok st3" using r by (simp add: reports_ok_def st3_def)
  have e3: "adjacency_list st3 = adjacency_list st2" "visited st3 = visited st2"
    "found_cycles st3 = found_cycles st2"
    by (simp_all add: st3_def)
  from l t' r' e1 e2 e3 show ?thesis by (intro exI conjI)
qed

lemma dfs_post_refl: "trail_ok st \<Longrightarrow> reports_ok st \<Longrightarrow> dfs_post st st"
  unfolding dfs_post_def using grown_refl [of "adjacency_list st"]
  by (intro conjI exI [of _ "[]"]) simp_all

lemma dfs_total:
  fixes st :: "('a::linorder) dfs_state"
  shows "trail_ok st \<Longrightarrow> reports_ok st \<Longrightarrow> called_on_node st current \<Longrightarrow>
         \<exists>st'. dfs st current = Inr st' \<and> dfs_post st st'"
    and "trail_ok st \<Longrightarrow> reports_ok st \<Longrightarrow> trail st \<noteq> [] \<Longrightarrow>
         \<forall>c \<in> set cs. c \<in> set (successors (adjacency_list st) (last (trail st))) \<Longrightarrow>
         \<exists>st'. dfs_neighbors st cs = Inr st' \<and> dfs_post st st'"
proof (induction st current and st cs rule: dfs_dfs_neighbors.induct)
  case (1 st current)
  show ?case
  proof (cases "current \<in> stack st")
    case True
    then have "dfs st current = record_loop st current" by (simp add: dfs.simps)
    with record_loop_post [OF "1.prems"(1,2) True "1.prems"(3)] show ?thesis by simp
  next
    case notstack: False
    show ?thesis
    proof (cases "current \<in> visited st")
      case True
      with notstack have "dfs st current = Inr st" by (simp add: dfs.simps)
      with dfs_post_refl [OF "1.prems"(1,2)] show ?thesis by simp
    next
      case False
      obtain d nbrs where g: "dd_getitem (adjacency_list (enter st current)) current = (d, nbrs)"
        by (cases "dd_getitem (adjacency_list (enter st current)) current")
      define st1 where "st1 = enter st current\<lparr>adjacency_list := d\<rparr>"
      note eg = enter_getitem_ok [OF "1.prems"(1,2) notstack "1.prems"(3) g, folded st1_def]
      have tr1: "trail st1 = trail st @ [current]" and sk1: "stack st1 = insert current (stack st)"
        and ad1: "adjacency_list st1 = d" and vs1: "visited st1 = insert current (visited st)"
        and fc1: "found_cycles st1 = found_cycles st"
        by (simp_all add: st1_def enter_def)
      have pre: "\<forall>c \<in> set nbrs. c \<in> set (successors (adjacency_list st1) (last (trail st1)))"
        using eg(4) by (simp add: tr1 ad1)
      have ne: "trail st1 \<noteq> []" by (simp add: tr1)
      from "1.IH" [OF notstack False refl refl g [symmetric], folded st1_def, OF eg(1,2) ne pre]
      obtain st2 where n2: "dfs_neighbors st1 nbrs = Inr st2" and p2: "dfs_post st1 st2"
        by (elim exE conjE)
      from p2 have t2: "trail_ok st2" and r2: "reports_ok st2"
        and tr2: "trail st2 = trail st @ [current]" and sk2: "stack st2 = insert current (stack st)"
        and vs2: "visited st1 \<subseteq> visited st2"
        by (simp_all add: dfs_post_def tr1 sk1)
      from p2 obtain e2 n2' where g2: "grown d e2 (adjacency_list st2)"
        and f2: "found_cycles st2 = found_cycles st @ n2'"
        unfolding dfs_post_def ad1 fc1 by (elim exE conjE)
      from leave_ok [OF t2 r2 tr2 sk2 notstack]
      obtain st3 where l3: "leave st2 current = Inr st3" and t3: "trail_ok st3"
        and r3: "reports_ok st3" and tr3: "trail st3 = trail st" and sk3: "stack st3 = stack st"
        and ad3: "adjacency_list st3 = adjacency_list st2" and vs3: "visited st3 = visited st2"
        and fc3: "found_cycles st3 = found_cycles st2"
        by (elim exE conjE)
      have res: "dfs st current = Inr st3"
        using notstack False g n2 l3 by (simp add: dfs.simps st1_def)
      from eg(3) obtain e1 where g1: "grown (adjacency_list st) e1 d" by (elim exE)
      have gg: "\<exists>extra. grown (adjacency_list st) extra (adjacency_list st3)"
        unfolding ad3 using grown_trans [OF g1 g2] by (rule exI)
      have ff: "\<exists>new. found_cycles st3 = found_cycles st @ new"
        unfolding fc3 using f2 by (rule exI)
      have vv: "visited st \<subseteq> visited st3"
        unfolding vs3 using vs2 vs1 by auto
      have "dfs_post st st3"
        unfolding dfs_post_def using t3 r3 tr3 sk3 gg ff vv by (intro conjI)
      with res show ?thesis by (intro exI conjI)
    qed
  qed
next
  case (2 st)
  then show ?case by (simp add: dfs_post_refl)
next
  case (3 st neighbor rest)
  have cn: "called_on_node st neighbor"
    using "3.prems"(3,4) by (simp add: called_on_node_def)
  from "3.IH"(1) [OF "3.prems"(1,2) cn]
  obtain st1 where d1: "dfs st neighbor = Inr st1" and p1: "dfs_post st st1"
    by (elim exE conjE)
  from p1 have t1: "trail_ok st1" and r1: "reports_ok st1" and tr1: "trail st1 = trail st"
    by (simp_all add: dfs_post_def)
  from p1 obtain e1 where "grown (adjacency_list st) e1 (adjacency_list st1)"
    unfolding dfs_post_def by (elim exE conjE)
  then have s1: "successors (adjacency_list st1) = successors (adjacency_list st)"
    by (rule grown_successors)
  have pre: "\<forall>c \<in> set rest. c \<in> set (successors (adjacency_list st1) (last (trail st1)))"
    using "3.prems"(4) by (simp add: s1 tr1)
  have ne: "trail st1 \<noteq> []" using "3.prems"(3) by (simp add: tr1)
  from "3.IH"(2) [OF d1 t1 r1 ne pre]
  obtain st2 where d2: "dfs_neighbors st1 rest = Inr st2" and p2: "dfs_post st1 st2"
    by (elim exE conjE)
  have "dfs_neighbors st (neighbor # rest) = Inr st2" using d1 d2 by simp
  with dfs_post_trans [OF p1 p2] show ?case by (intro exI conjI)
qed

lemma visit_roots_total:
  fixes st :: "('a::linorder) dfs_state"
  shows "trail_ok st \<Longrightarrow> reports_ok st \<Longrightarrow> trail st = [] \<Longrightarrow>
         set roots \<subseteq> fst ` set (adjacency_list st) \<Longrightarrow>
         \<exists>st'. visit_roots st roots = Inr st' \<and> dfs_post st st'"
proof (induction roots arbitrary: st)
  case Nil
  then show ?case by (simp add: dfs_post_refl)
next
  case (Cons node roots)
  show ?case
  proof (cases "node \<in> visited st")
    case True
    from Cons.prems(4) have "set roots \<subseteq> fst ` set (adjacency_list st)" by simp
    from Cons.IH [OF Cons.prems(1,2,3) this] True show ?thesis by simp
  next
    case False
    have same: "st\<lparr>trail := []\<rparr> = st" using Cons.prems(3) by simp
    have cn: "called_on_node st node"
      using Cons.prems(3,4) by (simp add: called_on_node_def)
    from dfs_total(1) [OF Cons.prems(1,2) cn]
    obtain st1 where d1: "dfs st node = Inr st1" and p1: "dfs_post st st1"
      by (elim exE conjE)
    from p1 have t1: "trail_ok st1" and r1: "reports_ok st1" and tr1: "trail st1 = []"
      by (simp_all add: dfs_post_def Cons.prems(3))
    from p1 obtain e1 where "grown (adjacency_list st) e1 (adjacency_list st1)"
      unfolding dfs_post_def by (elim exE conjE)
    then have "fst ` set (adjacency_list st) \<subseteq> fst ` set (adjacency_list st1)"
      by (auto simp: grown_def)
    with Cons.prems(4) have k1: "set roots \<subseteq> fst ` set (adjacency_list st1)" by auto
    from Cons.IH [OF t1 r1 tr1 k1]
    obtain st2 where d2: "visit_roots st1 roots = Inr st2" and p2: "dfs_post st1 st2"
      by (elim exE conjE)
    have "visit_roots st (node # roots) = Inr st2"
      using False d1 d2 by (simp add: same)
    with dfs_post_trans [OF p1 p2] show ?thesis by (intro exI conjI)
  qed
qed

lemma find_hierarchy_cycles_post:
  fixes adj :: "('a::linorder) adjacency"
  shows "\<exists>st'. find_hierarchy_cycles adj = Inr (adjacency_list st', found_cycles st') \<and>
           reports_ok st' \<and> (\<exists>extra. grown adj extra (adjacency_list st'))"
proof -
  define st0 :: "'a dfs_state" where
    "st0 = \<lparr>adjacency_list = adj, visited = {}, stack = {}, trail = [],
            found_cycles = [], seen_signatures = {}\<rparr>"
  have t0: "trail_ok st0" by (simp add: trail_ok_def st0_def)
  have r0: "reports_ok st0" by (simp add: reports_ok_def st0_def)
  have tr0: "trail st0 = []" by (simp add: st0_def)
  have k0: "set (map fst adj) \<subseteq> fst ` set (adjacency_list st0)" by (simp add: st0_def)
  from visit_roots_total [OF t0 r0 tr0 k0]
  obtain st' where v: "visit_roots st0 (map fst adj) = Inr st'" and p: "dfs_post st0 st'"
    by (elim exE conjE)
  have res: "find_hierarchy_cycles adj = Inr (adjacency_list st', found_cycles st')"
    using v by (simp add: find_hierarchy_cycles_def st0_def)
  from p have r: "reports_ok st'" by (simp add: dfs_post_def)
  from p have g: "\<exists>extra. grown adj extra (adjacency_list st')"
    by (simp add: dfs_post_def st0_def)
  from res r g show ?thesis by (intro exI [of _ st'] conjI)
qed





lemma trancl_source_is_node:
  assumes "(s, t) \<in> (edges_of g)\<^sup>+"
  shows "s \<in> set (nodes g)"
proof -
  from assms obtain z where "(s, z) \<in> edges_of g" by (auto dest: tranclD)
  then have "z \<in> set (successors g s)" by (simp add: edges_of_def)
  then obtain vs where "map_of g s = Some vs"
    by (cases "map_of g s") (auto simp: successors_def)
  then have "(s, vs) \<in> set g" by (rule map_of_SomeD)
  then show ?thesis unfolding nodes_def by force
qed














text \<open>
  Claim C10, as stated: the cycle detector leaves the hierarchy adjacency structure
  unchanged, with the same key set. For the tree that \<^verbatim>\<open>main\<close> builds from the single
  edge A\<rightarrow>B the only key is A; the lookup \<^verbatim>\<open>adjacency_list[current]\<close> for the leaf B
  stores B with an empty list, and the dictionary has two keys afterwards.
\<close>

theorem cycle_detector_adds_keys_counterexample:
  "build_tree [(''A'', ''B'')] = [(''A'', [''B''])] \<and>
   find_hierarchy_cycles (build_tree [(''A'', ''B'')]) = Inr ([(''A'', [''B'']), (''B'', [])], [])"
  by (simp add: build_tree_def dd_append_def find_hierarchy_cycles_def dfs.simps dd_getitem_def
      enter_def leave_def)

text \<open>
  Claim C10, amended. Running the cycle detector keeps every key of the hierarchy
  dictionary and its list as they were and in place, and only appends new keys, each with
  an empty list, for nodes that are children but were not keys; the successors of every
  node, hence the edges, are unchanged, and the broader-than graph is not touched. Running
  the contradiction detector leaves both structures unchanged.
\<close>

theorem detectors_frame:
  fixes gs :: "('a::linorder) graphs"
  shows "(detect_cycles gs = Inr (gs', loops) \<longrightarrow>
            bt_graph gs' = bt_graph gs \<and>
            (\<exists>extra. grown (tree gs) extra (tree gs')) \<and>
            successors (tree gs') = successors (tree gs) \<and>
            edges_of (tree gs') = edges_of (tree gs)) \<and>
         (detect_contradictions gs = Inr (gs'', contradictions) \<longrightarrow> gs'' = gs)"
proof (intro conjI impI)
  assume a: "detect_cycles gs = Inr (gs', loops)"
  from find_hierarchy_cycles_post [of "tree gs"]
  obtain st' extra where res: "find_hierarchy_cycles (tree gs) = Inr (adjacency_list st', found_cycles st')"
    and r: "reports_ok st'" and g: "grown (tree gs) extra (adjacency_list st')"
    by (elim exE conjE)
  from a res have gs': "gs' = gs\<lparr>tree := adjacency_list st'\<rparr>"
    by (simp add: detect_cycles_def)
  show "bt_graph gs' = bt_graph gs" by (simp add: gs')
  from g show "\<exists>extra. grown (tree gs) extra (tree gs')" unfolding gs' by (intro exI) simp
  from grown_successors [OF g] show s: "successors (tree gs') = successors (tree gs)"
    by (simp add: gs')
  then show "edges_of (tree gs') = edges_of (tree gs)" by (simp add: edges_of_def)
next
  assume "detect_contradictions gs = Inr (gs'', contradictions)"
  then show "gs'' = gs" by (auto simp: detect_contradictions_def split: sum.splits)
qed

theorem detectors_frame_witness:
  "detect_cycles sample_graphs =
     Inr (sample_graphs\<lparr>tree := [(''A'', [''B'']), (''B'', [])]\<rparr>, []) \<and>
   tree sample_graphs = [(''A'', [''B''])] \<and>
   grown (tree sample_graphs) [''B''] [(''A'', [''B'']), (''B'', [])] \<and>
   edges_of [(''A'', [''B'']), (''B'', [])] = edges_of (tree sample_graphs) \<and>
   detect_contradictions sample_graphs =
     Inr (sample_graphs,
          [\<lparr>c_from = ''A'', c_to = ''B'', c_path = [''A'', ''B'', ''A'']\<rparr>,
           \<lparr>c_from = ''B'', c_to = ''A'', c_path = [''B'', ''A'', ''B'']\<rparr>])"
proof -
  have t: "tree sample_graphs = [(''A'', [''B''])]"
    by (simp add: sample_graphs_def build_tree_def dd_append_def dd_getitem_def)
  have b: "bt_graph sample_graphs = [(''A'', [''B'']), (''B'', [''A''])]"
    by (simp add: sample_graphs_def add_edges_from_def add_edge_def add_node_def)
  have f: "find_hierarchy_cycles [(''A'', [''B''])] = Inr ([(''A'', [''B'']), (''B'', [])], [])"
    by (simp add: find_hierarchy_cycles_def dfs.simps dd_getitem_def enter_def leave_def)
  have c: "detect_cycles sample_graphs =
             Inr (sample_graphs\<lparr>tree := [(''A'', [''B'']), (''B'', [])]\<rparr>, [])"
    by (simp add: detect_cycles_def t f)
  have i: "identify_broader_issues [(''A'', [''B'']), (''B'', [''A''])] =
     Inr [\<lparr>c_from = ''A'', c_to = ''B'', c_path = [''A'', ''B'', ''A'']\<rparr>,
          \<lparr>c_from = ''B'', c_to = ''A'', c_path = [''B'', ''A'', ''B'']\<rparr>]"
    by code_simp
  have d: "detect_contradictions sample_graphs =
     Inr (sample_graphs,
          [\<lparr>c_from = ''A'', c_to = ''B'', c_path = [''A'', ''B'', ''A'']\<rparr>,
           \<lparr>c_from = ''B'', c_to = ''A'', c_path = [''B'', ''A'', ''B'']\<rparr>])"
    by (simp add: detect_contradictions_def b i)
  have g: "grown (tree sample_graphs) [''B''] [(''A'', [''B'']), (''B'', [])]"
    by (simp add: t grown_def)
  from detectors_frame [of sample_graphs "sample_graphs\<lparr>tree := [(''A'', [''B'']), (''B'', [])]\<rparr>" "[]"
      sample_graphs "[\<lparr>c_from = ''A'', c_to = ''B'', c_path = [''A'', ''B'', ''A'']\<rparr>,
           \<lparr>c_from = ''B'', c_to = ''A'', c_path = [''B'', ''A'', ''B'']\<rparr>]"] c
  have e: "edges_of [(''A'', [''B'']), (''B'', [])] = edges_of (tree sample_graphs)"
    by simp
  from c t g e d show ?thesis by (intro conjI)
qed

section \<open>Properties of the contradiction detector\<close>

lemma bfs_layer_relpow: "set (bfs_layer g s k) = {t. (s, t) \<in> edges_of g ^^ k}"
proof (induction k)
  case 0
  then show ?case by auto
next
  case (Suc k)
  have "set (bfs_layer g s (Suc k)) = (\<Union>u \<in> set (bfs_layer g s k). set (successors g u))"
    by simp
  also have "\<dots> = {t. \<exists>u. (s, u) \<in> edges_of g ^^ k \<and> (u, t) \<in> edges_of g}"
    unfolding Suc.IH by (auto simp: edges_of_def)
  also have "\<dots> = {t. (s, t) \<in> edges_of g ^^ Suc k}"
    by auto
  finally show ?case .
qed

lemma edges_of_subset: "edges_of g \<subseteq> set (concat (map (\<lambda>kv. map (Pair (fst kv)) (snd kv)) g))"
proof
  fix e
  assume "e \<in> edges_of g"
  then obtain u v where e: "e = (u, v)" and v: "v \<in> set (successors g u)"
    by (auto simp: edges_of_def)
  from v obtain vs where m: "map_of g u = Some vs" and vv: "v \<in> set vs"
    by (cases "map_of g u") (auto simp: successors_def)
  from m have "(u, vs) \<in> set g" by (rule map_of_SomeD)
  with vv show "e \<in> set (concat (map (\<lambda>kv. map (Pair (fst kv)) (snd kv)) g))"
    unfolding e by force
qed

lemma length_edge_list:
  "length (concat (map (\<lambda>kv. map (Pair (fst kv)) (snd kv)) g)) = number_of_edges g"
  unfolding number_of_edges_def by (induction g) simp_all

lemma finite_edges_of: "finite (edges_of g)"
  by (rule finite_subset [OF edges_of_subset]) simp

lemma card_edges_of: "card (edges_of g) \<le> number_of_edges g"
proof -
  have "card (edges_of g) \<le> card (set (concat (map (\<lambda>kv. map (Pair (fst kv)) (snd kv)) g)))"
    by (rule card_mono [OF _ edges_of_subset]) simp
  also have "\<dots> \<le> number_of_edges g"
    unfolding length_edge_list [symmetric] by (rule card_length)
  finally show ?thesis .
qed

lemma trancl_bounded:
  assumes "(s, t) \<in> (edges_of g)\<^sup>+"
  shows "\<exists>k. 0 < k \<and> k \<le> number_of_edges g \<and> (s, t) \<in> edges_of g ^^ k"
proof -
  from assms have "(s, t) \<in> \<Union> ((^^) (edges_of g) ` {n. 0 < n \<and> n \<le> card (edges_of g)})"
    using trancl_finite_eq_relpow [OF finite_edges_of [of g]] by simp
  then obtain k where "0 < k" and "k \<le> card (edges_of g)" and "(s, t) \<in> edges_of g ^^ k"
    by auto
  with card_edges_of [of g] show ?thesis by (intro exI [of _ k]) simp
qed

lemma set_nx_descendants:
  "set (nx_descendants g s) = {t. (s, t) \<in> (edges_of g)\<^sup>+ \<and> t \<noteq> s}"
proof (intro set_eqI iffI)
  fix t
  assume "t \<in> set (nx_descendants g s)"
  then have "t \<in> (\<Union>k \<in> set [1 ..< Suc (number_of_edges g)]. set (bfs_layer g s k))"
    and "t \<noteq> s"
    by (simp_all add: nx_descendants_def del: upt_Suc)
  then obtain k where "k \<in> set [1 ..< Suc (number_of_edges g)]"
    and "t \<in> set (bfs_layer g s k)"
    by (elim UN_E)
  then have "0 < k" by (simp del: upt_Suc)
  from \<open>t \<in> set (bfs_layer g s k)\<close> have "(s, t) \<in> edges_of g ^^ k"
    by (simp add: bfs_layer_relpow)
  with \<open>0 < k\<close> have "(s, t) \<in> (edges_of g)\<^sup>+" unfolding trancl_power by blast
  with \<open>t \<noteq> s\<close> show "t \<in> {t. (s, t) \<in> (edges_of g)\<^sup>+ \<and> t \<noteq> s}" by simp
next
  fix t
  assume "t \<in> {t. (s, t) \<in> (edges_of g)\<^sup>+ \<and> t \<noteq> s}"
  then have tr: "(s, t) \<in> (edges_of g)\<^sup>+" and ne: "t \<noteq> s" by simp_all
  from trancl_bounded [OF tr] obtain k where k: "0 < k" "k \<le> number_of_edges g"
    and r: "(s, t) \<in> edges_of g ^^ k"
    by (elim exE conjE)
  from r have "t \<in> set (bfs_layer g s k)" by (simp add: bfs_layer_relpow)
  moreover from k have "k \<in> set [1 ..< Suc (number_of_edges g)]" by (simp del: upt_Suc)
  ultimately have "t \<in> (\<Union>k \<in> set [1 ..< Suc (number_of_edges g)]. set (bfs_layer g s k))"
    by (rule UN_I [rotated])
  then show "t \<in> set (nx_descendants g s)"
    using ne by (simp add: nx_descendants_def del: upt_Suc)
qed

lemma distinct_nx_descendants: "distinct (nx_descendants g s)"
  by (simp add: nx_descendants_def)

lemma path_to_walk:
  "t \<in> set (bfs_layer g s k) \<Longrightarrow>
   \<exists>w. path_to g s k t = Some w \<and> is_walk g w \<and> hd w = s \<and> last w = t \<and> length w = Suc k"
proof (induction k arbitrary: t)
  case 0
  then show ?case by (simp add: is_walk_def)
next
  case (Suc k)
  from Suc.prems obtain u where "u \<in> set (bfs_layer g s k)" and "t \<in> set (successors g u)"
    by auto
  then have "find (\<lambda>p. t \<in> set (successors g p)) (bfs_layer g s k) \<noteq> None"
    by (auto simp: find_None_iff)
  then obtain p where f: "find (\<lambda>p. t \<in> set (successors g p)) (bfs_layer g s k) = Some p"
    by auto
  then have p: "p \<in> set (bfs_layer g s k)" and e: "t \<in> set (successors g p)"
    by (auto simp: find_Some_iff)
  from Suc.IH [OF p] obtain w where w: "path_to g s k p = Some w" and w1: "is_walk g w"
    and w2: "hd w = s" and w3: "last w = p" and w4: "length w = Suc k"
    by (elim exE conjE)
  from w1 have ne: "w \<noteq> []" and ch: "chain g w" by (simp_all add: is_walk_def)
  have "path_to g s (Suc k) t = Some (w @ [t])" by (simp add: f w)
  moreover have "is_walk g (w @ [t])"
    using ne ch e w3 by (simp add: is_walk_def chain_snoc)
  moreover have "hd (w @ [t]) = s" using ne w2 by simp
  ultimately show ?case using w4 by (intro exI [of _ "w @ [t]"]) simp
qed

lemma walk_relpow:
  "chain g w \<Longrightarrow> w \<noteq> [] \<Longrightarrow> (hd w, last w) \<in> edges_of g ^^ (length w - 1)"
proof (induction g w rule: chain.induct)
  case (3 g x y ys)
  then have "(x, y) \<in> edges_of g" and "(y, last (y # ys)) \<in> edges_of g ^^ length ys"
    by (simp_all add: edges_of_def)
  then have "(x, last (y # ys)) \<in> edges_of g ^^ Suc (length ys)"
    by (rule relpow_Suc_I2)
  then show ?case by simp
qed simp_all

lemma find_upt_least:
  assumes "P k" and "k < n"
  shows "\<exists>k0. find P [0 ..< n] = Some k0 \<and> P k0 \<and> k0 \<le> k \<and> k0 < n"
proof -
  from assms have "find P [0 ..< n] \<noteq> None" by (auto simp: find_None_iff)
  then obtain k0 where f: "find P [0 ..< n] = Some k0" by auto
  then obtain i where i: "i < n" "P ([0 ..< n] ! i)" "k0 = [0 ..< n] ! i"
    and l: "\<forall>j < i. \<not> P ([0 ..< n] ! j)"
    by (auto simp: find_Some_iff)
  from i have k0: "k0 = i" "P k0" "k0 < n" by simp_all
  have "k0 \<le> k"
  proof (rule ccontr)
    assume "\<not> k0 \<le> k"
    then have "k < i" using k0 by simp
    with l have "\<not> P ([0 ..< n] ! k)" by blast
    with assms show False by simp
  qed
  with f k0 show ?thesis by (intro exI [of _ k0]) simp
qed

lemma nx_shortest_path_shortest:
  assumes s: "s \<in> set (nodes g)" and t: "t \<in> set (nodes g)" and r: "(s, t) \<in> (edges_of g)\<^sup>*"
  shows "\<exists>w. nx_shortest_path g s t = Inr w \<and> shortest_walk g s t w"
proof -
  let ?P = "\<lambda>k. t \<in> set (bfs_layer g s k)"
  let ?n = "Suc (number_of_edges g)"
  have "\<exists>k. ?P k \<and> k < ?n"
  proof (cases "s = t")
    case True
    then show ?thesis by (intro exI [of _ 0]) simp
  next
    case False
    with r have "(s, t) \<in> (edges_of g)\<^sup>+" by (simp add: rtrancl_eq_or_trancl)
    from trancl_bounded [OF this] show ?thesis
      by (auto simp: bfs_layer_relpow)
  qed
  then obtain k where k: "?P k" "k < ?n" by (elim exE conjE)
  from find_upt_least [of ?P k ?n, OF k]
  obtain k0 where f: "find ?P [0 ..< ?n] = Some k0" and p0: "?P k0" and least: "k0 \<le> k"
    by (elim exE conjE)
  from path_to_walk [OF p0] obtain w where w: "path_to g s k0 t = Some w" and w1: "is_walk g w"
    and w2: "hd w = s" and w3: "last w = t" and w4: "length w = Suc k0"
    by (elim exE conjE)
  have res: "nx_shortest_path g s t = Inr w"
    using s t f w by (simp add: nx_shortest_path_def)
  have "length w \<le> length w'" if a: "is_walk g w'" "hd w' = s" "last w' = t" for w'
  proof -
    from a(1) have ne: "w' \<noteq> []" and ch: "chain g w'" by (simp_all add: is_walk_def)
    from walk_relpow [OF ch ne] a(2,3) have "?P (length w' - 1)"
      by (simp add: bfs_layer_relpow)
    show ?thesis
    proof (cases "length w' - 1 < ?n")
      case True
      from find_upt_least [of ?P "length w' - 1" ?n, OF \<open>?P (length w' - 1)\<close> True] f
      have "k0 \<le> length w' - 1" by simp
      with w4 ne show ?thesis by (cases w') simp_all
    next
      case False
      with k(2) least w4 show ?thesis by simp
    qed
  qed
  with w1 w2 w3 have "shortest_walk g s t w" by (simp add: shortest_walk_def)
  with res show ?thesis by (intro exI conjI)
qed

lemma map_of_tabulate:
  "map_of (map (\<lambda>n. (n, f n)) xs) x = (if x \<in> set xs then Some (f x) else None)"
  by (induction xs) auto

lemma dict_get_descendants:
  "dict_get (map (\<lambda>n. (n, nx_descendants g n)) (nodes g)) t [] =
     (if t \<in> set (nodes g) then nx_descendants g t else [])"
  by (simp add: dict_get_def map_of_tabulate)

lemma set_mutual_targets:
  "set (mutual_targets g s) =
     {t. s \<noteq> t \<and> (s, t) \<in> (edges_of g)\<^sup>+ \<and> (t, s) \<in> (edges_of g)\<^sup>+}"
  unfolding mutual_targets_def dict_get_descendants
  using trancl_source_is_node [of _ s g]
  by (auto simp: set_nx_descendants)

lemma distinct_mutual_targets: "distinct (mutual_targets g s)"
  by (simp add: mutual_targets_def distinct_nx_descendants)

lemma mutual_paths:
  assumes "t \<in> set (mutual_targets g s)"
  shows "\<exists>fwd bwd. nx_shortest_path g s t = Inr fwd \<and> nx_shortest_path g t s = Inr bwd \<and>
           shortest_walk g s t fwd \<and> shortest_walk g t s bwd"
proof -
  from assms have st: "(s, t) \<in> (edges_of g)\<^sup>+" and ts: "(t, s) \<in> (edges_of g)\<^sup>+"
    by (simp_all add: set_mutual_targets)
  have s: "s \<in> set (nodes g)" and t: "t \<in> set (nodes g)"
    using trancl_source_is_node [OF st] trancl_source_is_node [OF ts] by simp_all
  from nx_shortest_path_shortest [OF s t trancl_into_rtrancl [OF st]]
       nx_shortest_path_shortest [OF t s trancl_into_rtrancl [OF ts]]
  show ?thesis by blast
qed

lemma check_targets_result:
  assumes "set ts \<subseteq> set (nx_descendants g s)"
  shows "check_targets g (map (\<lambda>n. (n, nx_descendants g n)) (nodes g)) s ts acc =
         Inr (acc @ map (report_of g s)
                (filter (\<lambda>t. s \<in> set (dict_get (map (\<lambda>n. (n, nx_descendants g n)) (nodes g)) t []))
                   ts))"
  using assms
proof (induction ts arbitrary: acc)
  case Nil
  then show ?case by simp
next
  case (Cons t ts)
  let ?dm = "map (\<lambda>n. (n, nx_descendants g n)) (nodes g)"
  from Cons.prems have sub: "set ts \<subseteq> set (nx_descendants g s)"
    and t: "t \<in> set (nx_descendants g s)"
    by simp_all
  show ?case
  proof (cases "s \<in> set (dict_get ?dm t [])")
    case True
    with t have "t \<in> set (mutual_targets g s)" by (simp add: mutual_targets_def)
    from mutual_paths [OF this] obtain fwd bwd where
      f: "nx_shortest_path g s t = Inr fwd" and b: "nx_shortest_path g t s = Inr bwd"
      by blast
    have r: "report_of g s t = \<lparr>c_from = s, c_to = t, c_path = fwd @ tl bwd\<rparr>"
      by (simp add: report_of_def f b)
    from True show ?thesis by (simp add: f b r Cons.IH [OF sub])
  next
    case False
    then show ?thesis by (simp add: Cons.IH [OF sub])
  qed
qed

lemma check_sources_result:
  assumes "set ss \<subseteq> set (nodes g)"
  shows "check_sources g (map (\<lambda>n. (n, nx_descendants g n)) (nodes g)) ss acc =
         Inr (acc @ concat (map (\<lambda>s. map (report_of g s) (mutual_targets g s)) ss))"
  using assms
proof (induction ss arbitrary: acc)
  case Nil
  then show ?case by simp
next
  case (Cons s ss)
  then have sub: "set ss \<subseteq> set (nodes g)" and s: "s \<in> set (nodes g)" by simp_all
  have m: "map_of (map (\<lambda>n. (n, nx_descendants g n)) (nodes g)) s = Some (nx_descendants g s)"
    using s by (simp add: map_of_tabulate)
  have c: "check_targets g (map (\<lambda>n. (n, nx_descendants g n)) (nodes g)) s (nx_descendants g s) acc =
           Inr (acc @ map (report_of g s) (mutual_targets g s))"
    unfolding mutual_targets_def by (rule check_targets_result) simp
  show ?case by (simp add: m c Cons.IH [OF sub])
qed

lemma identify_broader_issues_eq:
  "identify_broader_issues g =
     Inr (concat (map (\<lambda>s. map (report_of g s) (mutual_targets g s)) (nodes g)))"
  unfolding identify_broader_issues_def Let_def
  using check_sources_result [of "nodes g" g "[]"] by simp

lemma reported_pairs:
  "map (\<lambda>p. (c_from p, c_to p))
     (concat (map (\<lambda>s. map (report_of g s) (mutual_targets g s)) ss)) =
   concat (map (\<lambda>s. map (Pair s) (mutual_targets g s)) ss)"
  by (induction ss) (simp_all add: report_of_def comp_def)

lemma distinct_concat_pairs:
  assumes "distinct xs" and "\<And>x. distinct (f x)"
  shows "distinct (concat (map (\<lambda>x. map (Pair x) (f x)) xs))"
  using assms(1)
proof (induction xs)
  case Nil
  then show ?case by simp
next
  case (Cons x xs)
  have "distinct (map (Pair x) (f x))"
    using assms(2) [of x] by (simp add: distinct_map inj_on_def)
  moreover have "set (map (Pair x) (f x)) \<inter> set (concat (map (\<lambda>x. map (Pair x) (f x)) xs)) = {}"
    using Cons.prems by auto
  ultimately show ?case using Cons by simp
qed

lemma set_concat_pairs:
  "set (concat (map (\<lambda>x. map (Pair x) (f x)) xs)) = {(x, y). x \<in> set xs \<and> y \<in> set (f x)}"
  by auto

lemma length_filter_unique:
  assumes "distinct (map f ps)" and "x \<in> f ` set ps"
  shows "length (filter (\<lambda>p. f p = x) ps) = 1"
  using assms
proof (induction ps)
  case Nil
  then show ?case by simp
next
  case (Cons p ps)
  show ?case
  proof (cases "f p = x")
    case True
    from Cons.prems(1) have "f p \<notin> f ` set ps" by simp
    with True have "\<forall>q \<in> set ps. f q \<noteq> x" by blast
    then have "filter (\<lambda>p. f p = x) ps = []" by (simp add: filter_empty_conv)
    with True show ?thesis by simp
  next
    case False
    with Cons show ?thesis by auto
  qed
qed

lemma length_filter_disj:
  assumes "\<And>x. \<not> (P x \<and> Q x)"
  shows "length (filter (\<lambda>x. P x \<or> Q x) xs) = length (filter P xs) + length (filter Q xs)"
  using assms by (induction xs) auto

text \<open>
  Claim C1. For every broader-than graph (a dictionary, so with no key twice) the
  contradiction detector returns, and it reports the ordered pair (source, target) exactly
  when source and target are different nodes of the graph, each reachable from the other.
  No ordered pair is reported twice, so each such unordered pair is reported exactly
  twice, once from each side; the cycle A\<rightarrow>B\<rightarrow>C\<rightarrow>A gives six reports.
\<close>

theorem contradictions_iff_mutually_reachable:
  assumes "distinct (nodes g)"
  shows "\<exists>ps. identify_broader_issues g = Inr ps \<and>
           (\<forall>s t. (\<exists>p \<in> set ps. c_from p = s \<and> c_to p = t) \<longleftrightarrow>
                  s \<in> set (nodes g) \<and> t \<in> set (nodes g) \<and> s \<noteq> t \<and>
                  reachable g s t \<and> reachable g t s) \<and>
           distinct (map (\<lambda>p. (c_from p, c_to p)) ps) \<and>
           (\<forall>s t. s \<noteq> t \<and> reachable g s t \<and> reachable g t s \<longrightarrow>
                  length (filter (\<lambda>p. c_from p = s \<and> c_to p = t) ps) = 1 \<and>
                  length (filter (\<lambda>p. c_from p = t \<and> c_to p = s) ps) = 1 \<and>
                  length (filter (\<lambda>p. {c_from p, c_to p} = {s, t}) ps) = 2)"
proof -
  define ps where "ps = concat (map (\<lambda>s. map (report_of g s) (mutual_targets g s)) (nodes g))"
  let ?f = "\<lambda>p. (c_from p, c_to p)"
  have res: "identify_broader_issues g = Inr ps"
    by (simp add: ps_def identify_broader_issues_eq)
  have pairs: "map ?f ps = concat (map (\<lambda>s. map (Pair s) (mutual_targets g s)) (nodes g))"
    unfolding ps_def by (rule reported_pairs)
  have mutual: "(s \<noteq> t \<and> (s, t) \<in> (edges_of g)\<^sup>+ \<and> (t, s) \<in> (edges_of g)\<^sup>+) \<longleftrightarrow>
                (s \<noteq> t \<and> reachable g s t \<and> reachable g t s)" for s t
    by (auto simp: reachable_def rtrancl_eq_or_trancl)
  have mem: "(s, t) \<in> ?f ` set ps \<longleftrightarrow> s \<noteq> t \<and> reachable g s t \<and> reachable g t s" for s t
  proof -
    have "(s, t) \<in> set (map ?f ps) \<longleftrightarrow> s \<in> set (nodes g) \<and> t \<in> set (mutual_targets g s)"
      unfolding pairs set_concat_pairs by simp
    also have "\<dots> \<longleftrightarrow> s \<noteq> t \<and> (s, t) \<in> (edges_of g)\<^sup>+ \<and> (t, s) \<in> (edges_of g)\<^sup>+"
      using trancl_source_is_node [of s t g] by (auto simp: set_mutual_targets)
    finally show ?thesis by (simp add: mutual)
  qed
  have iff: "(\<exists>p \<in> set ps. c_from p = s \<and> c_to p = t) \<longleftrightarrow>
             s \<in> set (nodes g) \<and> t \<in> set (nodes g) \<and> s \<noteq> t \<and>
             reachable g s t \<and> reachable g t s" for s t
  proof -
    have "(\<exists>p \<in> set ps. c_from p = s \<and> c_to p = t) \<longleftrightarrow> (s, t) \<in> ?f ` set ps" by force
    also have "\<dots> \<longleftrightarrow> s \<noteq> t \<and> reachable g s t \<and> reachable g t s" by (rule mem)
    also have "\<dots> \<longleftrightarrow> s \<in> set (nodes g) \<and> t \<in> set (nodes g) \<and> s \<noteq> t \<and>
             reachable g s t \<and> reachable g t s"
      using trancl_source_is_node [of s t g] trancl_source_is_node [of t s g] mutual [of s t]
      by blast
    finally show ?thesis .
  qed
  have dist: "distinct (map ?f ps)"
    unfolding pairs by (rule distinct_concat_pairs [OF assms distinct_mutual_targets])
  have counts: "length (filter (\<lambda>p. c_from p = s \<and> c_to p = t) ps) = 1 \<and>
                length (filter (\<lambda>p. c_from p = t \<and> c_to p = s) ps) = 1 \<and>
                length (filter (\<lambda>p. {c_from p, c_to p} = {s, t}) ps) = 2"
    if q: "s \<noteq> t \<and> reachable g s t \<and> reachable g t s" for s t
  proof -
    from q have ne: "s \<noteq> t" by simp
    from q have m1: "(s, t) \<in> ?f ` set ps" unfolding mem by blast
    from q have m2: "(t, s) \<in> ?f ` set ps" unfolding mem by blast
    have c1: "length (filter (\<lambda>p. c_from p = s \<and> c_to p = t) ps) = 1"
      using length_filter_unique [OF dist m1] by simp
    have c2: "length (filter (\<lambda>p. c_from p = t \<and> c_to p = s) ps) = 1"
      using length_filter_unique [OF dist m2] by simp
    have "length (filter (\<lambda>p. {c_from p, c_to p} = {s, t}) ps) =
          length (filter (\<lambda>p. (c_from p = s \<and> c_to p = t) \<or> (c_from p = t \<and> c_to p = s)) ps)"
      by (simp add: doubleton_eq_iff)
    also have "\<dots> = length (filter (\<lambda>p. c_from p = s \<and> c_to p = t) ps) +
                       length (filter (\<lambda>p. c_from p = t \<and> c_to p = s) ps)"
      using ne by (intro length_filter_disj) auto
    finally show ?thesis using c1 c2 by simp
  qed
  from res iff dist counts show ?thesis by (intro exI [of _ ps]) blast
qed

lemma sample_cycle_issues:
  "identify_broader_issues sample_cycle =
     Inr [\<lparr>c_from = ''A'', c_to = ''B'', c_path = [''A'', ''B'', ''C'', ''A'']\<rparr>,
          \<lparr>c_from = ''A'', c_to = ''C'', c_path = [''A'', ''B'', ''C'', ''A'']\<rparr>,
          \<lparr>c_from = ''B'', c_to = ''C'', c_path = [''B'', ''C'', ''A'', ''B'']\<rparr>,
          \<lparr>c_from = ''B'', c_to = ''A'', c_path = [''B'', ''C'', ''A'', ''B'']\<rparr>,
          \<lparr>c_from = ''C'', c_to = ''A'', c_path = [''C'', ''A'', ''B'', ''C'']\<rparr>,
          \<lparr>c_from = ''C'', c_to = ''B'', c_path = [''C'', ''A'', ''B'', ''C'']\<rparr>]"
  by code_simp

lemma sample_cycle_nodes: "nodes sample_cycle = [''A'', ''B'', ''C'']"
  by (simp add: sample_cycle_def nodes_def add_edges_from_def add_edge_def add_node_def)

theorem contradictions_iff_mutually_reachable_witness:
  "distinct (nodes sample_cycle) \<and>
   (\<exists>ps. identify_broader_issues sample_cycle = Inr ps \<and> length ps = 6 \<and>
         length (filter (\<lambda>p. {c_from p, c_to p} = {''A'', ''C''}) ps) = 2) \<and>
   reachable sample_cycle ''A'' ''C'' \<and> reachable sample_cycle ''C'' ''A'' \<and>
   identify_broader_issues (add_edges_from [] [(''A'', ''B''), (''B'', ''A'')]) =
     Inr [\<lparr>c_from = ''A'', c_to = ''B'', c_path = [''A'', ''B'', ''A'']\<rparr>,
          \<lparr>c_from = ''B'', c_to = ''A'', c_path = [''B'', ''A'', ''B'']\<rparr>] \<and>
   identify_broader_issues (add_edges_from [] [(''A'', ''B''), (''B'', ''C'')]) = Inr []"
proof -
  have d: "distinct (nodes sample_cycle)" by (simp add: sample_cycle_nodes)
  from contradictions_iff_mutually_reachable [OF d]
  obtain ps where res: "identify_broader_issues sample_cycle = Inr ps"
    and iff: "\<And>s t. (\<exists>p \<in> set ps. c_from p = s \<and> c_to p = t) \<longleftrightarrow>
                  s \<in> set (nodes sample_cycle) \<and> t \<in> set (nodes sample_cycle) \<and> s \<noteq> t \<and>
                  reachable sample_cycle s t \<and> reachable sample_cycle t s"
    and cnt: "\<And>s t. s \<noteq> t \<and> reachable sample_cycle s t \<and> reachable sample_cycle t s \<longrightarrow>
                  length (filter (\<lambda>p. {c_from p, c_to p} = {s, t}) ps) = 2"
    by blast
  from res have ps: "ps =
        [\<lparr>c_from = ''A'', c_to = ''B'', c_path = [''A'', ''B'', ''C'', ''A'']\<rparr>,
          \<lparr>c_from = ''A'', c_to = ''C'', c_path = [''A'', ''B'', ''C'', ''A'']\<rparr>,
          \<lparr>c_from = ''B'', c_to = ''C'', c_path = [''B'', ''C'', ''A'', ''B'']\<rparr>,
          \<lparr>c_from = ''B'', c_to = ''A'', c_path = [''B'', ''C'', ''A'', ''B'']\<rparr>,
          \<lparr>c_from = ''C'', c_to = ''A'', c_path = [''C'', ''A'', ''B'', ''C'']\<rparr>,
          \<lparr>c_from = ''C'', c_to = ''B'', c_path = [''C'', ''A'', ''B'', ''C'']\<rparr>]"
    by (simp add: sample_cycle_issues)
  have "\<exists>p \<in> set ps. c_from p = ''A'' \<and> c_to p = ''C''" by (simp add: ps)
  then have r: "reachable sample_cycle ''A'' ''C'' \<and> reachable sample_cycle ''C'' ''A''"
    unfolding iff by simp
  with cnt [of "''A''" "''C''"]
  have two: "length (filter (\<lambda>p. {c_from p, c_to p} = {''A'', ''C''}) ps) = 2" by simp
  have six: "length ps = 6" by (simp add: ps)
  have e2: "identify_broader_issues (add_edges_from [] [(''A'', ''B''), (''B'', ''A'')]) =
     Inr [\<lparr>c_from = ''A'', c_to = ''B'', c_path = [''A'', ''B'', ''A'']\<rparr>,
          \<lparr>c_from = ''B'', c_to = ''A'', c_path = [''B'', ''A'', ''B'']\<rparr>]"
    by code_simp
  have e0: "identify_broader_issues (add_edges_from [] [(''A'', ''B''), (''B'', ''C'')]) = Inr []"
    by code_simp
  from d res six two r e2 e0 show ?thesis by blast
qed

lemma chain_append:
  "chain g (xs @ ys) \<longleftrightarrow>
     chain g xs \<and> chain g ys \<and> (xs \<noteq> [] \<and> ys \<noteq> [] \<longrightarrow> hd ys \<in> set (successors g (last xs)))"
proof (induction g xs rule: chain.induct)
  case (2 g x)
  then show ?case by (cases ys) auto
qed auto

lemma shortest_walk_distinct:
  assumes "shortest_walk g s t w"
  shows "distinct w"
proof (rule ccontr)
  assume "\<not> distinct w"
  then obtain xs ys zs y where w: "w = xs @ [y] @ ys @ [y] @ zs"
    using not_distinct_decomp by blast
  from assms have ch: "chain g w" and h: "hd w = s" and l: "last w = t"
    and least: "\<And>w'. is_walk g w' \<Longrightarrow> hd w' = s \<Longrightarrow> last w' = t \<Longrightarrow> length w \<le> length w'"
    by (simp_all add: shortest_walk_def is_walk_def)
  let ?w = "xs @ [y] @ zs"
  from ch have c1: "chain g (xs @ [y])" and c2: "chain g ([y] @ zs)"
    unfolding w
    using chain_append [of g "xs @ [y]" "ys @ [y] @ zs"]
          chain_append [of g "xs @ [y] @ ys" "[y] @ zs"]
    by simp_all
  have "chain g ((xs @ [y]) @ zs)"
    unfolding chain_append [of g "xs @ [y]" zs]
    using c1 c2 chain_append [of g "[y]" zs] by simp
  then have "is_walk g ?w" by (simp add: is_walk_def)
  moreover have "hd ?w = s" using h unfolding w by (cases xs) simp_all
  moreover have "last ?w = t" using l unfolding w by (cases zs) simp_all
  ultimately have "length w \<le> length ?w" by (rule least)
  then show False unfolding w by simp
qed

lemma count_list_distinct: "distinct xs \<Longrightarrow> x \<in> set xs \<Longrightarrow> count_list xs x = 1"
  by (induction xs) (auto simp: count_list_0_iff)

lemma junction_path:
  assumes f: "shortest_walk g s t fwd" and b: "shortest_walk g t s bwd"
  shows "is_walk g (fwd @ tl bwd)" and "hd (fwd @ tl bwd) = s" and "last (fwd @ tl bwd) = s"
    and "count_list (fwd @ tl bwd) t = 1"
    and "length (fwd @ tl bwd) = length fwd + length bwd - 1"
proof -
  from f have f1: "fwd \<noteq> []" and f2: "chain g fwd" and f3: "hd fwd = s" and f4: "last fwd = t"
    by (simp_all add: shortest_walk_def is_walk_def)
  from b have b1: "bwd \<noteq> []" and b2: "chain g bwd" and b3: "hd bwd = t" and b4: "last bwd = s"
    by (simp_all add: shortest_walk_def is_walk_def)
  from b1 b3 obtain rest where bw: "bwd = t # rest" by (cases bwd) simp_all
  from b2 have "chain g rest \<and> (rest \<noteq> [] \<longrightarrow> hd rest \<in> set (successors g t))"
    unfolding bw using chain_append [of g "[t]" rest] by simp
  then have "chain g (fwd @ rest)"
    unfolding chain_append [of g fwd rest] using f2 f4 by simp
  then show "is_walk g (fwd @ tl bwd)" using f1 by (simp add: is_walk_def bw)
  show "hd (fwd @ tl bwd) = s" using f1 f3 by simp
  show "last (fwd @ tl bwd) = s"
  proof (cases "rest = []")
    case True
    with b4 bw have "t = s" by simp
    with True f4 show ?thesis by (simp add: bw)
  next
    case False
    with b4 show ?thesis by (simp add: bw)
  qed
  have "t \<in> set fwd" using f1 f4 last_in_set by metis
  with shortest_walk_distinct [OF f] have "count_list fwd t = 1" by (rule count_list_distinct)
  moreover from shortest_walk_distinct [OF b] have "t \<notin> set rest" by (simp add: bw)
  ultimately show "count_list (fwd @ tl bwd) t = 1"
    by (simp add: bw count_list_append count_list_0_iff)
  show "length (fwd @ tl bwd) = length fwd + length bwd - 1" by (simp add: bw)
qed

text \<open>
  Claim C3. The witness path of every reported contradiction is a shortest walk from source
  to target followed by a shortest walk from target back to source without its first
  node. So the target, where the two are joined, occurs exactly once on the path; the path
  starts and ends at the source, and each node on it is a successor of the node before it.
\<close>

theorem witness_path_shortest:
  assumes "identify_broader_issues g = Inr ps" and "p \<in> set ps"
  shows "\<exists>fwd bwd.
           c_path p = fwd @ tl bwd \<and>
           shortest_walk g (c_from p) (c_to p) fwd \<and>
           shortest_walk g (c_to p) (c_from p) bwd \<and>
           length (c_path p) = length fwd + length bwd - 1 \<and>
           count_list (c_path p) (c_to p) = 1 \<and>
           hd (c_path p) = c_from p \<and> last (c_path p) = c_from p \<and>
           is_walk g (c_path p)"
proof -
  from assms obtain s t where s: "s \<in> set (nodes g)" and t: "t \<in> set (mutual_targets g s)"
    and p: "p = report_of g s t"
    unfolding identify_broader_issues_eq by auto
  from mutual_paths [OF t] obtain fwd bwd where
    f: "nx_shortest_path g s t = Inr fwd" and b: "nx_shortest_path g t s = Inr bwd"
    and sf: "shortest_walk g s t fwd" and sb: "shortest_walk g t s bwd"
    by blast
  have e: "c_from p = s" "c_to p = t" "c_path p = fwd @ tl bwd"
    by (simp_all add: p report_of_def f b)
  from junction_path [OF sf sb] sf sb show ?thesis
    unfolding e by (intro exI [of _ fwd] exI [of _ bwd]) simp
qed

theorem witness_path_shortest_witness:
  "\<lparr>c_from = ''A'', c_to = ''C'', c_path = [''A'', ''B'', ''C'', ''A'']\<rparr>
     \<in> set (projr (identify_broader_issues sample_cycle)) \<and>
   (\<exists>fwd bwd.
      [''A'', ''B'', ''C'', ''A''] = fwd @ tl bwd \<and>
      shortest_walk sample_cycle ''A'' ''C'' fwd \<and>
      shortest_walk sample_cycle ''C'' ''A'' bwd \<and>
      length [''A'', ''B'', ''C'', ''A''] = length fwd + length bwd - 1) \<and>
   count_list [''A'', ''B'', ''C'', ''A''] ''C'' = 1 \<and>
   is_walk sample_cycle [''A'', ''B'', ''C'', ''A'']"
proof -
  let ?p = "\<lparr>c_from = ''A'', c_to = ''C'', c_path = [''A'', ''B'', ''C'', ''A'']\<rparr>"
  have m: "?p \<in> set (projr (identify_broader_issues sample_cycle))"
    by (simp add: sample_cycle_issues)
  have "?p \<in> set [\<lparr>c_from = ''A'', c_to = ''B'', c_path = [''A'', ''B'', ''C'', ''A'']\<rparr>,
          \<lparr>c_from = ''A'', c_to = ''C'', c_path = [''A'', ''B'', ''C'', ''A'']\<rparr>,
          \<lparr>c_from = ''B'', c_to = ''C'', c_path = [''B'', ''C'', ''A'', ''B'']\<rparr>,
          \<lparr>c_from = ''B'', c_to = ''A'', c_path = [''B'', ''C'', ''A'', ''B'']\<rparr>,
          \<lparr>c_from = ''C'', c_to = ''A'', c_path = [''C'', ''A'', ''B'', ''C'']\<rparr>,
          \<lparr>c_from = ''C'', c_to = ''B'', c_path = [''C'', ''A'', ''B'', ''C'']\<rparr>]"
    by simp
  from witness_path_shortest [OF sample_cycle_issues this] m show ?thesis
    by simp blast
qed

section \<open>Properties of the graph builders\<close>

lemma map_of_append_value:
  "map_of (map (\<lambda>(k', v). if k' = k then (k', v @ [c]) else (k', v)) d) p =
     (if p = k then map_option (\<lambda>v. v @ [c]) (map_of d k) else map_of d p)"
  by (induction d) auto

lemma successors_dd_append:
  "successors (dd_append d k c) p = (if p = k then successors d k @ [c] else successors d p)"
proof (cases "map_of d k")
  case None
  then have "fst (dd_getitem d k) = d @ [(k, [])]" by (simp add: dd_getitem_def)
  then show ?thesis
    using None
    by (auto simp: dd_append_def successors_def map_of_append_value map_add_def
        split: option.splits)
next
  case (Some vs)
  then have "fst (dd_getitem d k) = d" by (simp add: dd_getitem_def)
  then show ?thesis
    using Some by (simp add: dd_append_def successors_def map_of_append_value)
qed

lemma successors_build:
  "successors (foldl (\<lambda>tree (parent, child). dd_append tree parent child) d es) p =
     successors d p @ map snd (filter (\<lambda>e. fst e = p) es)"
  by (induction es rule: rev_induct) (auto simp: successors_dd_append)

lemma successors_build_tree:
  "successors (build_tree es) p = map snd (filter (\<lambda>e. fst e = p) es)"
  unfolding build_tree_def successors_build by (simp add: successors_def)

lemma count_list_children:
  assumes "distinct es" and "(p, c) \<in> set es"
  shows "count_list (map snd (filter (\<lambda>e. fst e = p) es)) c = 1"
proof -
  have "distinct (map snd (filter (\<lambda>e. fst e = p) es))"
    using assms(1) by (auto simp: distinct_map inj_on_def)
  moreover have "c \<in> set (map snd (filter (\<lambda>e. fst e = p) es))"
    using assms(2) by force
  ultimately show ?thesis by (rule count_list_distinct)
qed

lemma successors_add_node: "successors (add_node g n) = successors g"
proof (cases "n \<in> fst ` set g")
  case True
  then show ?thesis by (simp add: add_node_def)
next
  case False
  have "successors (g @ map (\<lambda>k. (k, [])) [n]) = successors g"
    by (rule successors_append_empty)
  with False show ?thesis by (simp add: add_node_def)
qed

lemma map_of_add_successor_same:
  "map_of (map (\<lambda>(n, vs). if n = u \<and> v \<notin> set vs then (n, vs @ [v]) else (n, vs)) d) u =
     map_option (\<lambda>vs. if v \<notin> set vs then vs @ [v] else vs) (map_of d u)"
proof (induction d)
  case Nil
  then show ?case by simp
next
  case (Cons kv d)
  obtain n vs where kv: "kv = (n, vs)" by (cases kv)
  show ?case
  proof (cases "n = u")
    case True
    then show ?thesis by (simp add: kv)
  next
    case False
    with Cons show ?thesis by (simp add: kv)
  qed
qed

lemma map_of_add_successor_other:
  "p \<noteq> u \<Longrightarrow>
   map_of (map (\<lambda>(n, vs). if n = u \<and> v \<notin> set vs then (n, vs @ [v]) else (n, vs)) d) p =
     map_of d p"
proof (induction d)
  case Nil
  then show ?case by simp
next
  case (Cons kv d)
  obtain n vs where kv: "kv = (n, vs)" by (cases kv)
  show ?case
  proof (cases "n = u")
    case True
    with Cons show ?thesis by (simp add: kv)
  next
    case False
    with Cons show ?thesis by (simp add: kv)
  qed
qed

lemma map_of_add_successor:
  "map_of (map (\<lambda>(n, vs). if n = u \<and> v \<notin> set vs then (n, vs @ [v]) else (n, vs)) d) p =
     (if p = u then map_option (\<lambda>vs. if v \<notin> set vs then vs @ [v] else vs) (map_of d u)
      else map_of d p)"
  using map_of_add_successor_same [of u v d] map_of_add_successor_other [of p u v d]
  by (cases "p = u") simp_all

lemma add_node_has_key: "n \<in> fst ` set (add_node g n)"
  by (auto simp: add_node_def)

lemma add_node_keeps_keys: "fst ` set g \<subseteq> fst ` set (add_node g n)"
  by (auto simp: add_node_def)

lemma successors_add_edge:
  "successors (add_edge g (u, v)) p =
     (if p = u \<and> v \<notin> set (successors g u) then successors g u @ [v] else successors g p)"
proof -
  let ?g = "add_node (add_node g u) v"
  have s: "successors ?g = successors g" by (simp add: successors_add_node)
  have "u \<in> fst ` set ?g" using add_node_has_key [of u g] add_node_keeps_keys [of "add_node g u" v]
    by blast
  then obtain vs where m: "map_of ?g u = Some vs"
    by (cases "map_of ?g u") (auto simp: map_of_eq_None_iff)
  then have "successors ?g u = vs" by (simp add: successors_def)
  then have vs: "vs = successors g u" by (simp add: s)
  have e: "successors (add_edge g (u, v)) p =
           (case (if p = u then map_option (\<lambda>vs. if v \<notin> set vs then vs @ [v] else vs) (map_of ?g u)
                  else map_of ?g p) of None \<Rightarrow> [] | Some vs \<Rightarrow> vs)"
    unfolding add_edge_def successors_def by (simp add: map_of_add_successor)
  show ?thesis
  proof (cases "p = u")
    case True
    then show ?thesis unfolding e by (simp add: m vs)
  next
    case False
    have "(case map_of ?g p of None \<Rightarrow> [] | Some vs \<Rightarrow> vs) = successors g p"
      using s by (simp add: successors_def fun_eq_iff)
    with False show ?thesis unfolding e by simp
  qed
qed

lemma successors_add_edges_from:
  "set (successors (add_edges_from g es) p) = set (successors g p) \<union> {v. (p, v) \<in> set es}"
  "distinct (successors g p) \<Longrightarrow> distinct (successors (add_edges_from g es) p)"
  unfolding add_edges_from_def
  by (induction es rule: rev_induct) (auto simp: successors_add_edge split: if_splits)

lemma count_list_digraph:
  assumes "(s, t) \<in> set es"
  shows "count_list (successors (add_edges_from [] es) s) t = 1"
proof (rule count_list_distinct)
  show "distinct (successors (add_edges_from [] es) s)"
    by (rule successors_add_edges_from(2)) (simp add: successors_def)
  show "t \<in> set (successors (add_edges_from [] es) s)"
    using assms by (simp add: successors_add_edges_from(1))
qed

lemma counter_get_incr:
  "counter_get (counter_incr m k) k' = (if k' = k then counter_get m k + 1 else counter_get m k')"
  by (simp add: counter_get_def counter_incr_def)

lemma classify_repeats_edge:
  assumes "hierarchy_record flds e \<or> broader_record flds e"
  shows "repeats (classify st flds) = counter_incr (repeats st) e"
  using assms by (auto simp: classify_def Let_def hierarchy_record_def broader_record_def)

text \<open>
  Claim C5. The multiplicity counter is keyed by the edge as it is stored: a \<^verbatim>\<open>CHD\<close>
  record from a to b and a \<^verbatim>\<open>PAR\<close> record from b to a both add one to the entry
  (b, a). Reading the same edge record twice adds exactly two to its entry, and the
  adjacency structure that \<^verbatim>\<open>main\<close> builds from the edge set (in whatever order the set
  is listed) holds the edge once.
\<close>

theorem multiplicity_keyed_by_stored_edge:
  "(5 \<le> length f1 \<and> 5 \<le> length f2 \<and> a \<noteq> b \<and>
    f1 ! 0 = a \<and> f1 ! 3 = ''CHD'' \<and> f1 ! 4 = b \<and>
    f2 ! 0 = b \<and> f2 ! 3 = ''PAR'' \<and> f2 ! 4 = a \<longrightarrow>
      repeats (classify st f1) = counter_incr (repeats st) (b, a) \<and>
      repeats (classify st f2) = counter_incr (repeats st) (b, a) \<and>
      counter_get (repeats (classify (classify st f1) f2)) (b, a) =
        counter_get (repeats st) (b, a) + 2) \<and>
   (hierarchy_record flds e \<or> broader_record flds e \<longrightarrow>
      counter_get (repeats (classify (classify st flds) flds)) e =
        counter_get (repeats st) e + 2) \<and>
   (hierarchy_record flds e \<and> distinct es \<and>
    set es = child_relations (classify (classify st flds) flds) \<longrightarrow>
      count_list (successors (build_tree es) (fst e)) (snd e) = 1) \<and>
   (broader_record flds e \<and> distinct es \<and>
    set es = broader_relations (classify (classify st flds) flds) \<longrightarrow>
      count_list (successors (add_edges_from [] es) (fst e)) (snd e) = 1)"
proof (intro conjI impI)
  assume h: "5 \<le> length f1 \<and> 5 \<le> length f2 \<and> a \<noteq> b \<and>
    f1 ! 0 = a \<and> f1 ! 3 = ''CHD'' \<and> f1 ! 4 = b \<and>
    f2 ! 0 = b \<and> f2 ! 3 = ''PAR'' \<and> f2 ! 4 = a"
  then have h1: "hierarchy_record f1 (b, a)" and h2: "hierarchy_record f2 (b, a)"
    by (auto simp: hierarchy_record_def)
  show r1: "repeats (classify st f1) = counter_incr (repeats st) (b, a)"
    using h1 by (simp add: classify_repeats_edge)
  show "repeats (classify st f2) = counter_incr (repeats st) (b, a)"
    using h2 by (simp add: classify_repeats_edge)
  have "repeats (classify (classify st f1) f2) = counter_incr (repeats (classify st f1)) (b, a)"
    using h2 by (simp add: classify_repeats_edge)
  then show "counter_get (repeats (classify (classify st f1) f2)) (b, a) =
        counter_get (repeats st) (b, a) + 2"
    by (simp add: r1 counter_get_incr)
next
  assume h: "hierarchy_record flds e \<or> broader_record flds e"
  then show "counter_get (repeats (classify (classify st flds) flds)) e =
        counter_get (repeats st) e + 2"
    by (simp add: classify_repeats_edge counter_get_incr)
next
  assume h: "hierarchy_record flds e \<and> distinct es \<and>
    set es = child_relations (classify (classify st flds) flds)"
  then have "e \<in> set es" by (simp add: classify_child_relations)
  then have "(fst e, snd e) \<in> set es" by simp
  with h show "count_list (successors (build_tree es) (fst e)) (snd e) = 1"
    unfolding successors_build_tree by (intro count_list_children) simp_all
next
  assume h: "broader_record flds e \<and> distinct es \<and>
    set es = broader_relations (classify (classify st flds) flds)"
  then have "e \<in> set es" by (simp add: classify_broader_relations)
  then have "(fst e, snd e) \<in> set es" by simp
  then show "count_list (successors (add_edges_from [] es) (fst e)) (snd e) = 1"
    by (rule count_list_digraph)
qed

theorem multiplicity_keyed_by_stored_edge_witness:
  "hierarchy_record [''C1'', ''A1'', ''x'', ''CHD'', ''C2''] (''C2'', ''C1'') \<and>
   repeats (classify init_state [''C1'', ''A1'', ''x'', ''CHD'', ''C2'']) = [(''C2'', ''C1'') \<mapsto> 1] \<and>
   repeats (classify init_state [''C2'', ''A1'', ''x'', ''PAR'', ''C1'']) = [(''C2'', ''C1'') \<mapsto> 1] \<and>
   counter_get (repeats (classify (classify init_state [''C1'', ''A1'', ''x'', ''CHD'', ''C2''])
                           [''C1'', ''A1'', ''x'', ''CHD'', ''C2''])) (''C2'', ''C1'') = 2 \<and>
   child_relations (classify (classify init_state [''C1'', ''A1'', ''x'', ''CHD'', ''C2''])
                           [''C1'', ''A1'', ''x'', ''CHD'', ''C2'']) = set [(''C2'', ''C1'')] \<and>
   count_list (successors (build_tree [(''C2'', ''C1'')]) ''C2'') ''C1'' = 1 \<and>
   broader_record [''C1'', ''A1'', ''x'', ''RB'', ''C2''] (''C1'', ''C2'') \<and>
   count_list (successors (add_edges_from [] [(''C1'', ''C2'')]) ''C1'') ''C2'' = 1"
proof -
  have h: "hierarchy_record [''C1'', ''A1'', ''x'', ''CHD'', ''C2''] (''C2'', ''C1'')"
    by (simp add: hierarchy_record_def)
  have b: "broader_record [''C1'', ''A1'', ''x'', ''RB'', ''C2''] (''C1'', ''C2'')"
    by (simp add: broader_record_def)
  have c: "child_relations (classify (classify init_state [''C1'', ''A1'', ''x'', ''CHD'', ''C2''])
                           [''C1'', ''A1'', ''x'', ''CHD'', ''C2'']) = set [(''C2'', ''C1'')]"
    by (simp add: classify_def Let_def init_state_def)
  have d: "broader_relations (classify (classify init_state [''C1'', ''A1'', ''x'', ''RB'', ''C2''])
                           [''C1'', ''A1'', ''x'', ''RB'', ''C2'']) = set [(''C1'', ''C2'')]"
    by (simp add: classify_def Let_def init_state_def)
  have i: "counter_incr (repeats init_state) (''C2'', ''C1'') = [(''C2'', ''C1'') \<mapsto> 1]"
    "counter_get (repeats init_state) (''C2'', ''C1'') = 0"
    by (simp_all add: counter_incr_def counter_get_def init_state_def)
  note t1 = multiplicity_keyed_by_stored_edge
      [of "[''C1'', ''A1'', ''x'', ''CHD'', ''C2'']" "[''C2'', ''A1'', ''x'', ''PAR'', ''C1'']"
          "''C1''" "''C2''" init_state "[''C1'', ''A1'', ''x'', ''CHD'', ''C2'']" "(''C2'', ''C1'')"
          "[(''C2'', ''C1'')]"]
  note t2 = multiplicity_keyed_by_stored_edge
      [of "[''C1'', ''A1'', ''x'', ''CHD'', ''C2'']" "[''C2'', ''A1'', ''x'', ''PAR'', ''C1'']"
          "''C1''" "''C2''" init_state "[''C1'', ''A1'', ''x'', ''RB'', ''C2'']" "(''C1'', ''C2'')"
          "[(''C1'', ''C2'')]"]
  from t1 h c have p1:
    "repeats (classify init_state [''C1'', ''A1'', ''x'', ''CHD'', ''C2'']) = [(''C2'', ''C1'') \<mapsto> 1]"
    "repeats (classify init_state [''C2'', ''A1'', ''x'', ''PAR'', ''C1'']) = [(''C2'', ''C1'') \<mapsto> 1]"
    "counter_get (repeats (classify (classify init_state [''C1'', ''A1'', ''x'', ''CHD'', ''C2''])
                           [''C1'', ''A1'', ''x'', ''CHD'', ''C2''])) (''C2'', ''C1'') = 2"
    "count_list (successors (build_tree [(''C2'', ''C1'')]) ''C2'') ''C1'' = 1"
    by (simp_all add: i)
  from t2 b d have p2: "count_list (successors (add_edges_from [] [(''C1'', ''C2'')]) ''C1'') ''C2'' = 1"
    by simp
  from h b c p1 p2 show ?thesis by (intro conjI)
qed


end
